theory Spec2Isabelle
  imports Main "HOL-Library.List_Lexorder"
begin

section \<open>Python values of the mines game\<close>

text \<open>
  The game of \<^verbatim>\<open>mines.py\<close> is a dictionary whose \<^verbatim>\<open>board\<close> and \<^verbatim>\<open>hidden\<close> entries
  are nested Python lists. A leaf of the board is the string \<^verbatim>\<open>'.'\<close> (a mine) or an
  integer, a leaf of the hidden mask is a boolean. Python is untyped, so one datatype
  holds every value that can sit in such a grid; lists are modelled as values (trees),
  which is exact for the grids the constructor builds, since it never shares a row
  between two places. Coordinates, dimensions and mines are tuples of integers,
  modelled as \<^typ>\<open>int list\<close>.
\<close>

datatype val = Mine | Num int | Flag bool | Rows "val list"

datatype error = IndexError | TypeError

datatype game_state = Ongoing | Defeat | Victory

record game =
  dimensions :: "int list"
  board :: val
  hidden :: val
  state :: game_state
  squares_left :: int

text \<open>The position an index denotes in a list of the given length: Python counts a
  negative index from the end, and any index that leaves the list is an \<^verbatim>\<open>IndexError\<close>
  (\<open>None\<close> here).\<close>

definition list_index :: "nat \<Rightarrow> int \<Rightarrow> nat option" where
  "list_index len i =
     (if 0 \<le> i \<and> i < int len then Some (nat i)
      else if - int len \<le> i \<and> i < 0 then Some (nat (int len + i))
      else None)"

text \<open>\<^verbatim>\<open>x[i]\<close>: lists are indexed as above; the one-character string \<^verbatim>\<open>'.'\<close> can be
  subscripted too (by 0 and -1); integers and booleans cannot.\<close>

fun getitem :: "val \<Rightarrow> int \<Rightarrow> error + val" where
  "getitem (Rows xs) i =
     (case list_index (length xs) i of None \<Rightarrow> Inl IndexError | Some j \<Rightarrow> Inr (xs ! j))"
| "getitem Mine i = (if i = 0 \<or> i = -1 then Inr Mine else Inl IndexError)"
| "getitem (Num k) i = Inl TypeError"
| "getitem (Flag b) i = Inl TypeError"

text \<open>\<^verbatim>\<open>x[i] = v\<close>: only a list supports item assignment.\<close>

fun setitem :: "val \<Rightarrow> int \<Rightarrow> val \<Rightarrow> error + val" where
  "setitem (Rows xs) i v =
     (case list_index (length xs) i of None \<Rightarrow> Inl IndexError
      | Some j \<Rightarrow> Inr (Rows (xs[j := v])))"
| "setitem Mine i v = Inl TypeError"
| "setitem (Num k) i v = Inl TypeError"
| "setitem (Flag b) i v = Inl TypeError"

text \<open>\<^verbatim>\<open>x + val\<close> for an integer \<^verbatim>\<open>val\<close>: a boolean counts as 0 or 1, a string or a list
  raises.\<close>

fun py_add :: "val \<Rightarrow> int \<Rightarrow> error + val" where
  "py_add (Num k) d = Inr (Num (k + d))"
| "py_add (Flag b) d = Inr (Num ((if b then 1 else 0) + d))"
| "py_add Mine d = Inl TypeError"
| "py_add (Rows xs) d = Inl TypeError"

text \<open>Truth value of a Python value (\<^verbatim>\<open>not x\<close> is its negation), and the comparisons
  \<^verbatim>\<open>x == 0\<close> and \<^verbatim>\<open>x == True\<close>, in which \<^verbatim>\<open>False == 0\<close> and \<^verbatim>\<open>True == 1\<close> hold.\<close>

fun truthy :: "val \<Rightarrow> bool" where
  "truthy Mine = True"
| "truthy (Num k) = (k \<noteq> 0)"
| "truthy (Flag b) = b"
| "truthy (Rows xs) = (xs \<noteq> [])"

fun eq_zero :: "val \<Rightarrow> bool" where
  "eq_zero (Num k) = (k = 0)"
| "eq_zero (Flag b) = (\<not> b)"
| "eq_zero v = False"

fun eq_true :: "val \<Rightarrow> bool" where
  "eq_true (Num k) = (k = 1)"
| "eq_true (Flag b) = b"
| "eq_true v = False"

subsection \<open>Grid access\<close>

text \<open>The three accessors descend one axis per coordinate element. Each tests
  \<^verbatim>\<open>len(coords) == 1\<close> and otherwise reads \<^verbatim>\<open>coords[0]\<close>, which raises on the empty tuple.
  The source mutates the innermost list in place; the model rebuilds the path to it.\<close>

fun get_val :: "val \<Rightarrow> int list \<Rightarrow> error + val" where
  "get_val grid [] = Inl IndexError"
| "get_val grid [c] = getitem grid c"
| "get_val grid (c # cs) =
     (case getitem grid c of Inl e \<Rightarrow> Inl e | Inr sub \<Rightarrow> get_val sub cs)"

fun set_val :: "val \<Rightarrow> int list \<Rightarrow> val \<Rightarrow> error + val" where
  "set_val grid [] v = Inl IndexError"
| "set_val grid [c] v = setitem grid c v"
| "set_val grid (c # cs) v =
     (case getitem grid c of Inl e \<Rightarrow> Inl e
      | Inr sub \<Rightarrow> (case set_val sub cs v of Inl e \<Rightarrow> Inl e
                    | Inr sub' \<Rightarrow> setitem grid c sub'))"

fun update_pos :: "val \<Rightarrow> int list \<Rightarrow> int \<Rightarrow> error + val" where
  "update_pos grid [] d = Inl IndexError"
| "update_pos grid [c] d =
     (case getitem grid c of Inl e \<Rightarrow> Inl e
      | Inr old \<Rightarrow> (case py_add old d of Inl e \<Rightarrow> Inl e
                   | Inr new \<Rightarrow> setitem grid c new))"
| "update_pos grid (c # cs) d =
     (case getitem grid c of Inl e \<Rightarrow> Inl e
      | Inr sub \<Rightarrow> (case update_pos sub cs d of Inl e \<Rightarrow> Inl e
                    | Inr sub' \<Rightarrow> setitem grid c sub'))"

subsection \<open>Neighbours\<close>

text \<open>\<^verbatim>\<open>get_neighors_nd\<close> builds a Python set of tuples: the candidates of axis 0 first,
  then one pass per further axis that appends the candidates of that axis to every
  tuple found so far. \<^verbatim>\<open>dimensions[index]\<close> is read inside the pass over the tuples
  found so far, so a dimensions tuple shorter than the location raises there.\<close>

definition axis0 :: "int list \<Rightarrow> int list \<Rightarrow> error + int list set" where
  "axis0 dims location =
     (case location of [] \<Rightarrow> Inl IndexError
      | l # ls \<Rightarrow> (case dims of [] \<Rightarrow> Inl IndexError
          | d # ds \<Rightarrow> Inr ((if l \<ge> 1 then {[l - 1]} else {}) \<union>
                          (if l \<le> d - 2 then {[l + 1]} else {}) \<union> {[l]})))"

fun extend_axes :: "int list \<Rightarrow> int list \<Rightarrow> int list set \<Rightarrow> error + int list set" where
  "extend_axes ds [] neighbors = Inr neighbors"
| "extend_axes [] (l # ls) neighbors =
     (if neighbors = {} then extend_axes [] ls {} else Inl IndexError)"
| "extend_axes (d # ds) (l # ls) neighbors =
     extend_axes ds ls
       ((if l \<ge> 1 then (\<lambda>n. n @ [l - 1]) ` neighbors else {}) \<union>
        (if l \<le> d - 2 then (\<lambda>n. n @ [l + 1]) ` neighbors else {}) \<union>
        (\<lambda>n. n @ [l]) ` neighbors)"

definition get_neighors_nd :: "int list \<Rightarrow> int list \<Rightarrow> error + int list set" where
  "get_neighors_nd dims location =
     (case axis0 dims location of Inl e \<Rightarrow> Inl e
      | Inr neighbors \<Rightarrow> extend_axes (tl dims) (tl location) neighbors)"

text \<open>The order in which a \<^verbatim>\<open>for\<close> loop visits a Python set is fixed by the set's hash
  table, not by the language. The model takes it as a parameter: the list in which
  the set built for the given dimensions and location is visited. Every statement
  below is proved for every such order that visits each element once.\<close>

type_synonym set_order = "int list \<Rightarrow> int list \<Rightarrow> int list set \<Rightarrow> int list list"

definition valid_order :: "set_order \<Rightarrow> bool" where
  "valid_order iter \<longleftrightarrow>
     (\<forall>dims loc S. finite S \<longrightarrow> set (iter dims loc S) = S \<and> distinct (iter dims loc S))"

definition sorted_order :: set_order where
  "sorted_order dims loc S = sorted_list_of_set S"

subsection \<open>Board construction\<close>

text \<open>The 1-axis case of \<^verbatim>\<open>create_game_0\<close> writes \<^verbatim>\<open>'.'\<close> at \<^verbatim>\<open>bomb[0]\<close> of each mine.\<close>

fun place_bombs :: "val \<Rightarrow> int list list \<Rightarrow> error + val" where
  "place_bombs b [] = Inr b"
| "place_bombs b (bomb # rest) =
     (case bomb of [] \<Rightarrow> Inl IndexError
      | b0 # bs \<Rightarrow> (case setitem b b0 Mine of Inl e \<Rightarrow> Inl e
                    | Inr b' \<Rightarrow> place_bombs b' rest))"

text \<open>The mines of row \<^verbatim>\<open>i\<close>, with their first coordinate dropped.\<close>

fun smaller_bombs :: "int \<Rightarrow> int list list \<Rightarrow> error + int list list" where
  "smaller_bombs i [] = Inr []"
| "smaller_bombs i (bomb # rest) =
     (case bomb of [] \<Rightarrow> Inl IndexError
      | b0 # bs \<Rightarrow> (case smaller_bombs i rest of Inl e \<Rightarrow> Inl e
                    | Inr sb \<Rightarrow> Inr (if b0 = i then bs # sb else sb)))"

text \<open>A \<^verbatim>\<open>for\<close> loop that appends one result per index and stops at the first exception.\<close>

fun collect :: "(nat \<Rightarrow> error + 'a) \<Rightarrow> nat list \<Rightarrow> error + 'a list" where
  "collect f [] = Inr []"
| "collect f (i # is) =
     (case f i of Inl e \<Rightarrow> Inl e
      | Inr x \<Rightarrow> (case collect f is of Inl e \<Rightarrow> Inl e | Inr xs \<Rightarrow> Inr (x # xs)))"

fun create_game_0 :: "int list \<Rightarrow> int list list \<Rightarrow> error + game" where
  "create_game_0 [] bombs = Inl IndexError"
| "create_game_0 [d] bombs =
     (case place_bombs (Rows (replicate (nat d) (Num 0))) bombs of Inl e \<Rightarrow> Inl e
      | Inr b \<Rightarrow> Inr \<lparr>dimensions = [d], board = b,
                      hidden = Rows (replicate (nat d) (Flag True)),
                      state = Ongoing, squares_left = d - int (length bombs)\<rparr>)"
| "create_game_0 (d # d' # ds) bombs =
     (case collect (\<lambda>i. case smaller_bombs (int i) bombs of Inl e \<Rightarrow> Inl e
                        | Inr sb \<Rightarrow> create_game_0 (d' # ds) sb) [0..<nat d]
      of Inl e \<Rightarrow> Inl e
      | Inr games \<Rightarrow> Inr \<lparr>dimensions = d # d' # ds, board = Rows (map board games),
                          hidden = Rows (map hidden games), state = Ongoing,
                          squares_left = prod_list (d # d' # ds) - int (length bombs)\<rparr>)"

text \<open>\<^verbatim>\<open>update_bombs_nd\<close>: for every mine, every neighbour that is not in the list of
  mines is incremented.\<close>

fun bump_neighbors :: "int list list \<Rightarrow> val \<Rightarrow> int list list \<Rightarrow> error + val" where
  "bump_neighbors bombs b [] = Inr b"
| "bump_neighbors bombs b (neighbor # rest) =
     (if neighbor \<notin> set bombs
      then (case update_pos b neighbor 1 of Inl e \<Rightarrow> Inl e
            | Inr b' \<Rightarrow> bump_neighbors bombs b' rest)
      else bump_neighbors bombs b rest)"

fun update_bombs_loop ::
  "set_order \<Rightarrow> int list \<Rightarrow> int list list \<Rightarrow> val \<Rightarrow> int list list \<Rightarrow> error + val" where
  "update_bombs_loop iter dims bombs b [] = Inr b"
| "update_bombs_loop iter dims bombs b (bomb # rest) =
     (case get_neighors_nd dims bomb of Inl e \<Rightarrow> Inl e
      | Inr neighbors \<Rightarrow>
          (case bump_neighbors bombs b (iter dims bomb neighbors) of Inl e \<Rightarrow> Inl e
           | Inr b' \<Rightarrow> update_bombs_loop iter dims bombs b' rest))"

definition update_bombs_nd ::
  "set_order \<Rightarrow> val \<Rightarrow> int list list \<Rightarrow> int list \<Rightarrow> error + val" where
  "update_bombs_nd iter b bombs dims = update_bombs_loop iter dims bombs b bombs"

definition new_game_nd :: "set_order \<Rightarrow> int list \<Rightarrow> int list list \<Rightarrow> error + game" where
  "new_game_nd iter dims bombs =
     (case create_game_0 dims bombs of Inl e \<Rightarrow> Inl e
      | Inr g \<Rightarrow> (case update_bombs_nd iter (board g) bombs dims of Inl e \<Rightarrow> Inl e
                  | Inr b \<Rightarrow> Inr (g\<lparr>board := b\<rparr>)))"

definition new_game_2d :: "set_order \<Rightarrow> int \<Rightarrow> int \<Rightarrow> int list list \<Rightarrow> error + game" where
  "new_game_2d iter num_rows num_cols bombs = new_game_nd iter [num_rows, num_cols] bombs"

subsection \<open>Digging\<close>

text \<open>\<^verbatim>\<open>dig_nd\<close> calls itself inside a loop over the neighbours, each call working on the
  game the previous one left. The model counts the depth of the recursion with fuel:
  \<open>None\<close> means the fuel ran out. That enough fuel always gives a result is part of
  what is proved about it. The result is the exception raised, or the game after the
  call and the number returned. Two things stay outside the model: the interpreter's
  own limit on the depth of recursion, and the half-updated game an exception leaves
  behind (no statement below is about either).\<close>

fun dig_each ::
  "(game \<Rightarrow> int list \<Rightarrow> (error + game \<times> int) option) \<Rightarrow> int list list \<Rightarrow> game \<Rightarrow> int \<Rightarrow>
     (error + game \<times> int) option" where
  "dig_each dig [] g revealed = Some (Inr (g, revealed))"
| "dig_each dig (neighbor # rest) g revealed =
     (case dig g neighbor of None \<Rightarrow> None
      | Some (Inl e) \<Rightarrow> Some (Inl e)
      | Some (Inr (g', k)) \<Rightarrow> dig_each dig rest g' (revealed + k))"

fun dig_nd :: "set_order \<Rightarrow> nat \<Rightarrow> game \<Rightarrow> int list \<Rightarrow> (error + game \<times> int) option" where
  "dig_nd iter 0 g coordinates = None"
| "dig_nd iter (Suc fuel) g coordinates =
     (if state g = Defeat \<or> state g = Victory then Some (Inr (g, 0))
      else case get_val (hidden g) coordinates of Inl e \<Rightarrow> Some (Inl e)
      | Inr h \<Rightarrow>
        if \<not> truthy h then Some (Inr (g, 0))
        else case set_val (hidden g) coordinates (Flag False) of Inl e \<Rightarrow> Some (Inl e)
        | Inr hid \<Rightarrow>
          (case get_val (board g) coordinates of Inl e \<Rightarrow> Some (Inl e)
           | Inr v \<Rightarrow>
             let g1 = g\<lparr>hidden := hid\<rparr>;
                 g2 = (if v \<noteq> Mine then g1\<lparr>squares_left := squares_left g1 - 1\<rparr> else g1)
             in if v = Mine then Some (Inr (g2\<lparr>state := Defeat\<rparr>, 1))
                else if squares_left g2 = 0 then Some (Inr (g2\<lparr>state := Victory\<rparr>, 1))
                else if eq_zero v
                then (case get_neighors_nd (dimensions g2) coordinates of
                        Inl e \<Rightarrow> Some (Inl e)
                      | Inr neighbors \<Rightarrow>
                          dig_each (\<lambda>g' n. dig_nd iter fuel g' n)
                            (iter (dimensions g2) coordinates neighbors) g2 1)
                else Some (Inr (g2, 1))))"

definition dig_2d :: "set_order \<Rightarrow> nat \<Rightarrow> game \<Rightarrow> int \<Rightarrow> int \<Rightarrow> (error + game \<times> int) option" where
  "dig_2d iter fuel g row col = dig_nd iter fuel g [row, col]"

subsection \<open>Rendering\<close>

text \<open>\<^verbatim>\<open>render_nd\<close> returns nested lists of strings. \<^verbatim>\<open>str\<close> of an integer is its decimal
  numeral, of \<^verbatim>\<open>'.'\<close> the string itself, of a boolean its name; \<^verbatim>\<open>str\<close> of a list (which
  a board deeper than its dimensions would hand to it) is Python's \<^verbatim>\<open>repr\<close>, with the
  elements separated by a comma and a space and the string in quotes.\<close>

datatype rendered = Sym string | Block "rendered list"

definition digit_char :: "nat \<Rightarrow> char" where
  "digit_char n = ''0123456789'' ! n"

fun str_nat :: "nat \<Rightarrow> string" where
  "str_nat n = (if n < 10 then [digit_char n] else str_nat (n div 10) @ [digit_char (n mod 10)])"

declare str_nat.simps [simp del]

definition str_int :: "int \<Rightarrow> string" where
  "str_int i = (if i < 0 then CHR ''-'' # str_nat (nat (- i)) else str_nat (nat i))"

fun join_comma :: "string list \<Rightarrow> string" where
  "join_comma [] = []"
| "join_comma [s] = s"
| "join_comma (s # t # ss) = s @ '', '' @ join_comma (t # ss)"

fun py_repr :: "val \<Rightarrow> string" where
  "py_repr Mine = [CHR 0x27, CHR ''.'', CHR 0x27]"
| "py_repr (Num k) = str_int k"
| "py_repr (Flag b) = (if b then ''True'' else ''False'')"
| "py_repr (Rows xs) = ''['' @ join_comma (map py_repr xs) @ '']''"

fun py_str :: "val \<Rightarrow> string" where
  "py_str Mine = ''.''"
| "py_str v = py_repr v"

text \<open>The body of the loop of the 1-axis case: the hidden entry is read first, also
  under \<^verbatim>\<open>xray\<close>; the comparisons are \<^verbatim>\<open>== True\<close> and \<^verbatim>\<open>== 0\<close>.\<close>

definition cell_symbol :: "val \<Rightarrow> val \<Rightarrow> bool \<Rightarrow> nat \<Rightarrow> error + rendered" where
  "cell_symbol b h xray coord =
     (case get_val h [int coord] of Inl e \<Rightarrow> Inl e
      | Inr hv \<Rightarrow>
          if eq_true hv \<and> \<not> xray then Inr (Sym ''_'')
          else (case get_val b [int coord] of Inl e \<Rightarrow> Inl e
                | Inr bv \<Rightarrow> if eq_zero bv then Inr (Sym '' '') else Inr (Sym (py_str bv))))"

text \<open>The recursion of \<^verbatim>\<open>render_nd\<close> builds a dictionary with the tail of the dimensions
  and row \<^verbatim>\<open>index\<close> of the board and of the hidden mask, and reads nothing else of it,
  so the model recurses on these three.\<close>

fun render_grid :: "int list \<Rightarrow> val \<Rightarrow> val \<Rightarrow> bool \<Rightarrow> error + rendered" where
  "render_grid [] b h xray = Inl IndexError"
| "render_grid [d] b h xray =
     (case collect (cell_symbol b h xray) [0..<nat d] of Inl e \<Rightarrow> Inl e
      | Inr locations \<Rightarrow> Inr (Block locations))"
| "render_grid (d # d' # ds) b h xray =
     (case collect (\<lambda>index. case getitem b (int index) of Inl e \<Rightarrow> Inl e
                      | Inr bi \<Rightarrow> (case getitem h (int index) of Inl e \<Rightarrow> Inl e
                                   | Inr hi \<Rightarrow> render_grid (d' # ds) bi hi xray))
             [0..<nat d]
      of Inl e \<Rightarrow> Inl e
      | Inr locations \<Rightarrow> Inr (Block locations))"

definition render_nd :: "game \<Rightarrow> bool \<Rightarrow> error + rendered" where
  "render_nd g xray = render_grid (dimensions g) (board g) (hidden g) xray"

definition render_2d_locations :: "game \<Rightarrow> bool \<Rightarrow> error + rendered" where
  "render_2d_locations g xray = render_nd g xray"

section \<open>Vocabulary of the specification\<close>

text \<open>A grid has the shape of a dimensions tuple when it is nested one list per axis,
  the list of axis \<open>i\<close> having \<open>dims ! i\<close> entries, with leaves of the given kind: cells
  (a mine or a count) for a board, booleans for a hidden mask. A coordinate is in range
  when it has one index per axis, each in \<open>[0, dims ! i - 1]\<close>.\<close>

fun is_cell :: "val \<Rightarrow> bool" where
  "is_cell Mine = True"
| "is_cell (Num k) = True"
| "is_cell v = False"

fun is_flag :: "val \<Rightarrow> bool" where
  "is_flag (Flag b) = True"
| "is_flag v = False"

fun shaped :: "(val \<Rightarrow> bool) \<Rightarrow> int list \<Rightarrow> val \<Rightarrow> bool" where
  "shaped leaf [] v = leaf v"
| "shaped leaf (d # ds) (Rows xs) = (int (length xs) = d \<and> (\<forall>x\<in>set xs. shaped leaf ds x))"
| "shaped leaf (d # ds) v = False"

definition in_range :: "int list \<Rightarrow> int list \<Rightarrow> bool" where
  "in_range dims c = list_all2 (\<lambda>x d. 0 \<le> x \<and> x < d) c dims"

definition well_formed :: "game \<Rightarrow> bool" where
  "well_formed g \<longleftrightarrow> dimensions g \<noteq> [] \<and> shaped is_cell (dimensions g) (board g) \<and>
     shaped is_flag (dimensions g) (hidden g)"

text \<open>The indices Python accepts on an axis of length \<open>d\<close> are \<open>[-d, d - 1]\<close>; a negative
  one counts from the end, and \<open>from_start\<close> gives the same cell counted from the start.\<close>

definition py_range :: "int list \<Rightarrow> int list \<Rightarrow> bool" where
  "py_range dims c = list_all2 (\<lambda>x d. - d \<le> x \<and> x < d) c dims"

definition from_start :: "int list \<Rightarrow> int list \<Rightarrow> int list" where
  "from_start dims c = map2 (\<lambda>x d. if x < 0 then d + x else x) c dims"

text \<open>A small game in play: a mine, a revealed cell and the last hidden safe cell.\<close>

definition example_game :: game where
  "example_game = \<lparr>dimensions = [3], board = Rows [Mine, Num 1, Num 0],
     hidden = Rows [Flag True, Flag False, Flag True], state = Ongoing, squares_left = 1\<rparr>"

text \<open>Two coordinates are adjacent when they differ by at most 1 on every axis (a
  coordinate is adjacent to itself). The words of the specification for the neighbour
  set: shift every axis by -1, 0 or +1 independently, then discard what leaves the
  board.\<close>

definition adjacent :: "int list \<Rightarrow> int list \<Rightarrow> bool" where
  "adjacent c n = list_all2 (\<lambda>x y. \<bar>x - y\<bar> \<le> 1) c n"

fun shifts :: "int list \<Rightarrow> int list list" where
  "shifts [] = [[]]"
| "shifts (l # ls) = concat (map (\<lambda>s. map ((#) (l + s)) (shifts ls)) [-1, 0, 1])"

definition shifted_in_bounds :: "int list \<Rightarrow> int list \<Rightarrow> int list set" where
  "shifted_in_bounds dims location = set (filter (in_range dims) (shifts location))"

text \<open>The geometric neighbours of a cell: the in-range coordinates that differ from it
  by at most 1 on every axis, the cell itself excluded.\<close>

definition geometric_neighbors :: "int list \<Rightarrow> int list \<Rightarrow> int list set" where
  "geometric_neighbors dims c = {n. in_range dims n \<and> adjacent c n \<and> n \<noteq> c}"

text \<open>What \<^verbatim>\<open>create_game_0\<close> is meant to return, and the state of the board while
  \<^verbatim>\<open>update_bombs_nd\<close> runs: mines at the listed coordinates, a running count \<open>f\<close>
  elsewhere.\<close>

definition fresh_game :: "int list \<Rightarrow> int list list \<Rightarrow> game \<Rightarrow> bool" where
  "fresh_game dims bombs g \<longleftrightarrow>
     dimensions g = dims \<and> state g = Ongoing \<and>
     squares_left g = prod_list dims - int (length bombs) \<and>
     shaped is_cell dims (board g) \<and> shaped is_flag dims (hidden g) \<and>
     (\<forall>c. in_range dims c \<longrightarrow>
        get_val (board g) c = Inr (if c \<in> set bombs then Mine else Num 0) \<and>
        get_val (hidden g) c = Inr (Flag True))"

definition counted :: "int list \<Rightarrow> int list list \<Rightarrow> val \<Rightarrow> (int list \<Rightarrow> int) \<Rightarrow> bool" where
  "counted dims bombs b f \<longleftrightarrow>
     shaped is_cell dims b \<and>
     (\<forall>c. in_range dims c \<longrightarrow> get_val b c = Inr (if c \<in> set bombs then Mine else Num (f c)))"

text \<open>Every coordinate of a board, the cells still hidden, and the number the
  specification compares \<open>squares_left\<close> with: the hidden cells that hold no mine.\<close>

fun all_coords :: "int list \<Rightarrow> int list list" where
  "all_coords [] = [[]]"
| "all_coords (d # ds) = concat (map (\<lambda>i. map ((#) (int i)) (all_coords ds)) [0..<nat d])"

definition hidden_cells :: "game \<Rightarrow> int list set" where
  "hidden_cells g = {c \<in> set (all_coords (dimensions g)). get_val (hidden g) c = Inr (Flag True)}"

definition hidden_safe :: "game \<Rightarrow> nat" where
  "hidden_safe g = card {c \<in> hidden_cells g. get_val (board g) c \<noteq> Inr Mine}"

text \<open>The invariant of a game in play, and what one call of \<open>dig_nd\<close> keeps: the
  invariant, the dimensions and the board, while hidden cells only get fewer.\<close>

definition consistent :: "game \<Rightarrow> bool" where
  "consistent g \<longleftrightarrow> well_formed g \<and> squares_left g = int (hidden_safe g)"

definition settled :: "game \<Rightarrow> game \<Rightarrow> bool" where
  "settled g g' \<longleftrightarrow> consistent g' \<and> dimensions g' = dimensions g \<and> board g' = board g \<and>
     card (hidden_cells g') \<le> card (hidden_cells g)"

text \<open>A caller digging at a list of coordinates in turn, each call with the same
  recursion budget, stopping at the first exception.\<close>

fun dig_sequence :: "set_order \<Rightarrow> nat \<Rightarrow> game \<Rightarrow> int list list \<Rightarrow> (error + game) option" where
  "dig_sequence iter fuel g [] = Some (Inr g)"
| "dig_sequence iter fuel g (c # cs) =
     (case dig_nd iter fuel g c of None \<Rightarrow> None
      | Some (Inl e) \<Rightarrow> Some (Inl e)
      | Some (Inr (g', k)) \<Rightarrow> dig_sequence iter fuel g' cs)"

text \<open>The symbol the specification gives a revealed cell, the symbol at a coordinate of
  a rendered grid, and the shape of a rendered grid.\<close>

fun symbol_of :: "val \<Rightarrow> string" where
  "symbol_of Mine = ''.''"
| "symbol_of (Num k) = (if k = 0 then '' '' else str_int k)"
| "symbol_of v = py_str v"

fun sym_at :: "rendered \<Rightarrow> int list \<Rightarrow> string option" where
  "sym_at (Sym s) [] = Some s"
| "sym_at (Block rs) (c # cs) =
     (if 0 \<le> c \<and> c < int (length rs) then sym_at (rs ! nat c) cs else None)"
| "sym_at r cs = None"

fun same_shape :: "int list \<Rightarrow> rendered \<Rightarrow> bool" where
  "same_shape [] (Sym s) = True"
| "same_shape (d # ds) (Block rs) = (int (length rs) = d \<and> (\<forall>r\<in>set rs. same_shape ds r))"
| "same_shape ds r = False"

text \<open>The game of the doctest of \<^verbatim>\<open>render_2d_locations\<close>.\<close>

definition doc_game :: game where
  "doc_game = \<lparr>dimensions = [2, 4],
     board = Rows [Rows [Mine, Num 3, Num 1, Num 0], Rows [Mine, Mine, Num 1, Num 0]],
     hidden = Rows [Rows [Flag True, Flag False, Flag False, Flag True],
                    Rows [Flag True, Flag True, Flag False, Flag True]],
     state = Ongoing, squares_left = 2\<rparr>"

text \<open>The game of the end-to-end scenario, \<^verbatim>\<open>new_game((2,4), [(0,0),(1,0),(1,1)])\<close>, and
  the game its dig at \<open>(0,3)\<close> leaves.\<close>

definition scenario_board :: val where
  "scenario_board = Rows [Rows [Mine, Num 3, Num 1, Num 0], Rows [Mine, Mine, Num 1, Num 0]]"

definition scenario_game :: game where
  "scenario_game = \<lparr>dimensions = [2, 4], board = scenario_board,
     hidden = Rows [Rows [Flag True, Flag True, Flag True, Flag True],
                    Rows [Flag True, Flag True, Flag True, Flag True]],
     state = Ongoing, squares_left = 5\<rparr>"

definition scenario_after :: game where
  "scenario_after = \<lparr>dimensions = [2, 4], board = scenario_board,
     hidden = Rows [Rows [Flag True, Flag True, Flag False, Flag False],
                    Rows [Flag True, Flag True, Flag False, Flag False]],
     state = Ongoing, squares_left = 1\<rparr>"

text \<open>The games the cascade of that dig passes through: \<open>(0,3)\<close> is revealed, the flags
  say which of \<open>(0,2)\<close>, \<open>(1,2)\<close> and \<open>(1,3)\<close> are still hidden, and the cell \<open>(0,1)\<close> stays
  hidden throughout. \<open>corner\<close> is the neighbour set of both \<open>(0,3)\<close> and \<open>(1,3)\<close>.\<close>

definition still_hidden :: "bool \<Rightarrow> bool \<Rightarrow> bool \<Rightarrow> int" where
  "still_hidden a c d = (if a then 1 else 0) + (if c then 1 else 0) + (if d then 1 else 0)"

definition cascade_game :: "bool \<Rightarrow> bool \<Rightarrow> bool \<Rightarrow> game" where
  "cascade_game a c d = \<lparr>dimensions = [2, 4], board = scenario_board,
     hidden = Rows [Rows [Flag True, Flag True, Flag a, Flag False],
                    Rows [Flag True, Flag True, Flag c, Flag d]],
     state = Ongoing, squares_left = 1 + still_hidden a c d\<rparr>"

definition corner :: "int list set" where
  "corner = {[0, 2], [0, 3], [1, 2], [1, 3]}"

section \<open>Grid access on well-shaped grids\<close>

lemma in_range_Nil [simp]: "in_range [] c \<longleftrightarrow> c = []"
  by (simp add: in_range_def)

lemma in_range_Cons: "in_range (d # ds) c \<longleftrightarrow> (\<exists>x xs. c = x # xs \<and> 0 \<le> x \<and> x < d \<and> in_range ds xs)"
  by (auto simp: in_range_def list_all2_Cons2)

lemma in_range_Cons_Cons [simp]: "in_range (d # ds) (x # xs) \<longleftrightarrow> 0 \<le> x \<and> x < d \<and> in_range ds xs"
  by (simp add: in_range_def)

lemma shaped_Cons: "shaped leaf (d # ds) v \<longleftrightarrow> (\<exists>xs. v = Rows xs \<and> int (length xs) = d \<and> (\<forall>x\<in>set xs. shaped leaf ds x))"
  by (cases v) auto

lemma get_val_Cons: "cs \<noteq> [] \<Longrightarrow> get_val g (c # cs) = (case getitem g c of Inl e \<Rightarrow> Inl e | Inr sub \<Rightarrow> get_val sub cs)"
  by (cases cs) auto

lemma set_val_Cons: "cs \<noteq> [] \<Longrightarrow> set_val g (c # cs) v = (case getitem g c of Inl e \<Rightarrow> Inl e
      | Inr sub \<Rightarrow> (case set_val sub cs v of Inl e \<Rightarrow> Inl e | Inr sub' \<Rightarrow> setitem g c sub'))"
  by (cases cs) auto

lemma update_pos_Cons: "cs \<noteq> [] \<Longrightarrow> update_pos g (c # cs) d = (case getitem g c of Inl e \<Rightarrow> Inl e
      | Inr sub \<Rightarrow> (case update_pos sub cs d of Inl e \<Rightarrow> Inl e | Inr sub' \<Rightarrow> setitem g c sub'))"
  by (cases cs) auto

lemma list_index_in [simp]: "0 \<le> i \<Longrightarrow> i < int len \<Longrightarrow> list_index len i = Some (nat i)"
  by (simp add: list_index_def)

lemma list_index_outside: "i < - int len \<or> int len \<le> i \<Longrightarrow> list_index len i = None"
  by (auto simp: list_index_def)

lemma list_index_from_end:
  "- int len \<le> i \<Longrightarrow> i < 0 \<Longrightarrow> list_index len i = Some (nat (int len + i))"
  by (simp add: list_index_def)

lemma get_val_shaped:
  "shaped leaf dims g \<Longrightarrow> dims \<noteq> [] \<Longrightarrow> in_range dims c \<Longrightarrow> \<exists>v. get_val g c = Inr v \<and> leaf v"
proof (induction dims arbitrary: g c)
  case Nil then show ?case by simp
next
  case (Cons d ds)
  from Cons.prems(1) obtain xs where g: "g = Rows xs" and len: "int (length xs) = d"
    and sub: "\<forall>x\<in>set xs. shaped leaf ds x" by (auto simp: shaped_Cons)
  from Cons.prems(3) obtain x cs where c: "c = x # cs" and x: "0 \<le> x" "x < d" and cs: "in_range ds cs"
    by (auto simp: in_range_Cons)
  have nth: "shaped leaf ds (xs ! nat x)" using sub x len by auto
  show ?case
  proof (cases ds)
    case Nil
    then show ?thesis using g len c x cs nth by simp
  next
    case (Cons d' ds')
    then have "cs \<noteq> []" using cs by (auto simp: in_range_Cons)
    moreover have "\<exists>v. get_val (xs ! nat x) cs = Inr v \<and> leaf v"
      using Cons.IH[OF nth _ cs] Cons by simp
    ultimately show ?thesis using g len c x by (simp add: get_val_Cons)
  qed
qed

lemma set_val_shaped:
  "shaped leaf dims g \<Longrightarrow> dims \<noteq> [] \<Longrightarrow> in_range dims c \<Longrightarrow> leaf v \<Longrightarrow>
   \<exists>g'. set_val g c v = Inr g' \<and> shaped leaf dims g' \<and> get_val g' c = Inr v \<and>
     (\<forall>c'. in_range dims c' \<longrightarrow> c' \<noteq> c \<longrightarrow> get_val g' c' = get_val g c')"
proof (induction dims arbitrary: g c)
  case Nil then show ?case by simp
next
  case (Cons d ds)
  from Cons.prems(1) obtain xs where g: "g = Rows xs" and len: "int (length xs) = d"
    and sub: "\<forall>x\<in>set xs. shaped leaf ds x" by (auto simp: shaped_Cons)
  from Cons.prems(3) obtain x cs where c: "c = x # cs" and x: "0 \<le> x" "x < d" and cs: "in_range ds cs"
    by (auto simp: in_range_Cons)
  have nth: "shaped leaf ds (xs ! nat x)" using sub x len by auto
  have nx: "nat x < length xs" using x len by auto
  show ?case
  proof (cases ds)
    case Nil
    then have cs0: "cs = []" using cs by simp
    have sh: "shaped leaf [d] (Rows (xs[nat x := v]))"
      using sub len Nil \<open>leaf v\<close> by (auto dest!: set_update_subset_insert[THEN subsetD])
    have other: "get_val (Rows (xs[nat x := v])) c' = get_val (Rows xs) c'"
      if "in_range [d] c'" "c' \<noteq> c" for c'
    proof -
      from that(1) obtain y where c': "c' = [y]" and y: "0 \<le> y" "y < d" by (auto simp: in_range_Cons)
      with that(2) c cs0 have "nat y \<noteq> nat x" using x by auto
      then show ?thesis using c' y len by simp
    qed
    show ?thesis using g len c x cs0 nx sh other Nil by simp
  next
    case (Cons d' ds')
    then have ne: "cs \<noteq> []" using cs by (auto simp: in_range_Cons)
    from Cons.IH[OF nth _ cs \<open>leaf v\<close>] Cons obtain s' where
      s': "set_val (xs ! nat x) cs v = Inr s'" "shaped leaf ds s'" "get_val s' cs = Inr v"
      "\<forall>c'. in_range ds c' \<longrightarrow> c' \<noteq> cs \<longrightarrow> get_val s' c' = get_val (xs ! nat x) c'" by auto
    have sh: "shaped leaf (d # ds) (Rows (xs[nat x := s']))"
      using sub len s'(2) by (auto dest!: set_update_subset_insert[THEN subsetD])
    have other: "get_val (Rows (xs[nat x := s'])) c' = get_val (Rows xs) c'"
      if "in_range (d # ds) c'" "c' \<noteq> c" for c'
    proof -
      from that(1) obtain y cs' where c': "c' = y # cs'" and y: "0 \<le> y" "y < d" and cs': "in_range ds cs'"
        by (auto simp: in_range_Cons)
      have ne': "cs' \<noteq> []" using cs' Cons by (auto simp: in_range_Cons)
      show ?thesis
      proof (cases "y = x")
        case True
        then have "cs' \<noteq> cs" using that(2) c c' by simp
        then show ?thesis using True c' y len ne' nx s'(4) cs' by (simp add: get_val_Cons)
      next
        case False
        then have "nat y \<noteq> nat x" using x y by auto
        then show ?thesis using c' y len ne' by (simp add: get_val_Cons)
      qed
    qed
    have "set_val g c v = Inr (Rows (xs[nat x := s']))"
      using g len c x ne s'(1) by (simp add: set_val_Cons)
    moreover have "get_val (Rows (xs[nat x := s'])) c = Inr v"
      using len c x ne nx s'(3) by (simp add: get_val_Cons)
    ultimately show ?thesis using sh other g by auto
  qed
qed

lemma update_pos_set_val:
  "get_val g c = Inr old \<Longrightarrow> py_add old d = Inr new \<Longrightarrow> update_pos g c d = set_val g c new"
proof (induction g c arbitrary: old rule: get_val.induct)
  case (1 grid) then show ?case by simp
next
  case (2 grid c) then show ?case by simp
next
  case (3 grid c v va)
  then show ?case by (auto split: sum.splits)
qed

section \<open>Single steps of digging\<close>

text \<open>C7: on a game that is over (state \<open>Defeat\<close> or \<open>Victory\<close>, the states other than
  \<open>Ongoing\<close>), or at a coordinate whose hidden entry is already \<open>False\<close>, \<open>dig_nd\<close>
  returns 0 and the game it leaves is the game it was given, field for field. It does
  so with any positive recursion budget.\<close>

theorem dig_nd_no_op:
  "state g \<noteq> Ongoing \<or> get_val (hidden g) c = Inr (Flag False) \<Longrightarrow>
   dig_nd iter (Suc fuel) g c = Some (Inr (g, 0))"
  by (cases "state g") auto

theorem dig_nd_no_op_witness:
  "get_val (hidden example_game) [1] = Inr (Flag False) \<and>
   dig_nd sorted_order (Suc 0) example_game [1] = Some (Inr (example_game, 0))"
  using dig_nd_no_op [of example_game "[1]" sorted_order 0] by (simp add: example_game_def)

text \<open>C5: on an ongoing well-shaped game of any dimensions, digging an in-range
  coordinate that is still hidden and holds a mine returns 1 at once: the state
  becomes \<open>Defeat\<close>, \<open>squares_left\<close>, the board and the dimensions are untouched, and the
  hidden mask changes at the dug coordinate only, so nothing cascades.\<close>

theorem dig_nd_mine:
  assumes "well_formed g" and "in_range (dimensions g) c" and "state g = Ongoing"
    and "get_val (hidden g) c = Inr (Flag True)" and "get_val (board g) c = Inr Mine"
  shows "\<exists>hid. dig_nd iter (Suc fuel) g c = Some (Inr (g\<lparr>hidden := hid, state := Defeat\<rparr>, 1)) \<and>
           get_val hid c = Inr (Flag False) \<and>
           (\<forall>c'. in_range (dimensions g) c' \<longrightarrow> c' \<noteq> c \<longrightarrow> get_val hid c' = get_val (hidden g) c')"
proof -
  from assms(1) have sh: "shaped is_flag (dimensions g) (hidden g)" and ne: "dimensions g \<noteq> []"
    by (auto simp: well_formed_def)
  from set_val_shaped[OF sh ne assms(2), of "Flag False"] obtain hid where
    h: "set_val (hidden g) c (Flag False) = Inr hid" "get_val hid c = Inr (Flag False)"
    "\<forall>c'. in_range (dimensions g) c' \<longrightarrow> c' \<noteq> c \<longrightarrow> get_val hid c' = get_val (hidden g) c'"
    by auto
  have "dig_nd iter (Suc fuel) g c = Some (Inr (g\<lparr>hidden := hid, state := Defeat\<rparr>, 1))"
    using assms(3,4,5) h(1) by simp
  with h(2,3) show ?thesis by blast
qed

theorem dig_nd_mine_witness:
  "\<exists>hid. dig_nd sorted_order (Suc 0) example_game [0] =
       Some (Inr (example_game\<lparr>hidden := hid, state := Defeat\<rparr>, 1)) \<and>
     get_val hid [0] = Inr (Flag False) \<and> get_val hid [2] = Inr (Flag True)"
proof -
  from dig_nd_mine [of example_game "[0]" sorted_order 0] obtain hid where
    h: "dig_nd sorted_order (Suc 0) example_game [0] =
          Some (Inr (example_game\<lparr>hidden := hid, state := Defeat\<rparr>, 1))"
      "get_val hid [0] = Inr (Flag False)"
      "\<forall>c'. in_range (dimensions example_game) c' \<longrightarrow> c' \<noteq> [0] \<longrightarrow>
         get_val hid c' = get_val (hidden example_game) c'"
    by (auto simp: example_game_def well_formed_def)
  from h(3)[rule_format, of "[2]"] have "get_val hid [2] = Inr (Flag True)"
    by (simp add: example_game_def)
  with h(1,2) show ?thesis by blast
qed

text \<open>C6: on an ongoing well-shaped game with one safe square left, digging an in-range
  hidden cell that is not a mine brings \<open>squares_left\<close> to 0, sets the state to
  \<open>Victory\<close> and returns 1 at once, whatever the count in the cell: the hidden mask
  changes at the dug coordinate only, no neighbour is visited.\<close>

theorem dig_nd_last_square:
  assumes "well_formed g" and "in_range (dimensions g) c" and "state g = Ongoing"
    and "get_val (hidden g) c = Inr (Flag True)" and "get_val (board g) c = Inr (Num k)"
    and "squares_left g = 1"
  shows "\<exists>hid. dig_nd iter (Suc fuel) g c =
             Some (Inr (g\<lparr>hidden := hid, state := Victory, squares_left := 0\<rparr>, 1)) \<and>
           get_val hid c = Inr (Flag False) \<and>
           (\<forall>c'. in_range (dimensions g) c' \<longrightarrow> c' \<noteq> c \<longrightarrow> get_val hid c' = get_val (hidden g) c')"
proof -
  from assms(1) have sh: "shaped is_flag (dimensions g) (hidden g)" and ne: "dimensions g \<noteq> []"
    by (auto simp: well_formed_def)
  from set_val_shaped[OF sh ne assms(2), of "Flag False"] obtain hid where
    h: "set_val (hidden g) c (Flag False) = Inr hid" "get_val hid c = Inr (Flag False)"
    "\<forall>c'. in_range (dimensions g) c' \<longrightarrow> c' \<noteq> c \<longrightarrow> get_val hid c' = get_val (hidden g) c'"
    by auto
  have "dig_nd iter (Suc fuel) g c =
      Some (Inr (g\<lparr>hidden := hid, state := Victory, squares_left := 0\<rparr>, 1))"
    using assms(3,4,5,6) h(1) by simp
  with h(2,3) show ?thesis by blast
qed

theorem dig_nd_last_square_witness:
  "\<exists>hid. dig_nd sorted_order (Suc 0) example_game [2] =
       Some (Inr (example_game\<lparr>hidden := hid, state := Victory, squares_left := 0\<rparr>, 1)) \<and>
     get_val hid [2] = Inr (Flag False) \<and> get_val hid [0] = Inr (Flag True)"
proof -
  from dig_nd_last_square [of example_game "[2]" 0 sorted_order 0] obtain hid where
    h: "dig_nd sorted_order (Suc 0) example_game [2] =
          Some (Inr (example_game\<lparr>hidden := hid, state := Victory, squares_left := 0\<rparr>, 1))"
      "get_val hid [2] = Inr (Flag False)"
      "\<forall>c'. in_range (dimensions example_game) c' \<longrightarrow> c' \<noteq> [2] \<longrightarrow>
         get_val hid c' = get_val (hidden example_game) c'"
    by (auto simp: example_game_def well_formed_def)
  from h(3)[rule_format, of "[0]"] have "get_val hid [0] = Inr (Flag True)"
    by (simp add: example_game_def)
  with h(1,2) show ?thesis by blast
qed

section \<open>Indices outside the axis\<close>

lemma getitem_outside:
  "int (length xs) = d \<Longrightarrow> x < - d \<or> d \<le> x \<Longrightarrow> getitem (Rows xs) x = Inl IndexError"
  using list_index_outside[of x "length xs"] by auto

lemma getitem_from_end:
  "int (length xs) = d \<Longrightarrow> - d \<le> x \<Longrightarrow> x < 0 \<Longrightarrow>
   getitem (Rows xs) x = Inr (xs ! nat (d + x)) \<and> getitem (Rows xs) (d + x) = Inr (xs ! nat (d + x))"
  using list_index_from_end[of "length xs" x] by auto

lemma setitem_outside:
  "int (length xs) = d \<Longrightarrow> x < - d \<or> d \<le> x \<Longrightarrow> setitem (Rows xs) x v = Inl IndexError"
  using list_index_outside[of x "length xs"] by auto

lemma setitem_from_end:
  "int (length xs) = d \<Longrightarrow> - d \<le> x \<Longrightarrow> x < 0 \<Longrightarrow>
   setitem (Rows xs) x v = setitem (Rows xs) (d + x) v"
  using list_index_from_end[of "length xs" x] by auto

lemma py_range_Cons: "py_range (d # ds) c \<longleftrightarrow> (\<exists>x xs. c = x # xs \<and> - d \<le> x \<and> x < d \<and> py_range ds xs)"
  by (auto simp: py_range_def list_all2_Cons2)

lemma access_outside:
  "shaped leaf dims g \<Longrightarrow> dims \<noteq> [] \<Longrightarrow> length c = length dims \<Longrightarrow> \<not> py_range dims c \<Longrightarrow>
   get_val g c = Inl IndexError \<and> set_val g c v = Inl IndexError \<and> update_pos g c k = Inl IndexError"
proof (induction dims arbitrary: g c)
  case Nil then show ?case by simp
next
  case (Cons d ds)
  from Cons.prems(1) obtain xs where g: "g = Rows xs" and len: "int (length xs) = d"
    and sub: "\<forall>x\<in>set xs. shaped leaf ds x" by (auto simp: shaped_Cons)
  from Cons.prems(3) obtain x cs where c: "c = x # cs" and lcs: "length cs = length ds"
    by (cases c) auto
  show ?case
  proof (cases "x < - d \<or> d \<le> x")
    case True
    have gi: "getitem g x = Inl IndexError" using getitem_outside[OF len True] g by simp
    have si: "setitem g x w = Inl IndexError" for w using setitem_outside[OF len True] g by simp
    show ?thesis
    proof (cases cs)
      case Nil then show ?thesis using gi si c by simp
    next
      case (Cons a list)
      then show ?thesis using gi c by simp
    qed
  next
    case False
    then have inx: "- d \<le> x" "x < d" by auto
    define j where "j = (if x < 0 then d + x else x)"
    have j: "0 \<le> j" "j < d" using inx by (auto simp: j_def)
    have gi: "getitem g x = Inr (xs ! nat j)"
      using g len inx getitem_from_end[OF len, of x] by (auto simp: j_def)
    have nth: "shaped leaf ds (xs ! nat j)" using sub j len by auto
    have rest: "\<not> py_range ds cs" using Cons.prems(4) c inx by (auto simp: py_range_Cons)
    have dsne: "ds \<noteq> []" using rest lcs by (auto simp: py_range_def)
    then have csne: "cs \<noteq> []" using lcs by auto
    from Cons.IH[OF nth dsne lcs rest] show ?thesis
      using gi c csne by (simp add: get_val_Cons set_val_Cons update_pos_Cons)
  qed
qed

lemma in_range_from_start: "py_range dims c \<Longrightarrow> in_range dims (from_start dims c)"
proof (induction dims arbitrary: c)
  case Nil then show ?case by (simp add: py_range_def from_start_def)
next
  case (Cons d ds)
  then obtain x cs where "c = x # cs" "- d \<le> x" "x < d" "py_range ds cs"
    by (auto simp: py_range_Cons)
  then show ?case using Cons.IH[of cs] by (auto simp: from_start_def)
qed

lemma access_from_end:
  "shaped leaf dims g \<Longrightarrow> dims \<noteq> [] \<Longrightarrow> py_range dims c \<Longrightarrow>
   get_val g c = get_val g (from_start dims c) \<and> set_val g c v = set_val g (from_start dims c) v \<and>
   update_pos g c k = update_pos g (from_start dims c) k"
proof (induction dims arbitrary: g c)
  case Nil then show ?case by simp
next
  case (Cons d ds)
  from Cons.prems(1) obtain xs where g: "g = Rows xs" and len: "int (length xs) = d"
    and sub: "\<forall>x\<in>set xs. shaped leaf ds x" by (auto simp: shaped_Cons)
  from Cons.prems(3) obtain x cs where c: "c = x # cs" and inx: "- d \<le> x" "x < d"
    and cs: "py_range ds cs" by (auto simp: py_range_Cons)
  define j where "j = (if x < 0 then d + x else x)"
  have j: "0 \<le> j" "j < d" using inx by (auto simp: j_def)
  have fs: "from_start (d # ds) c = j # from_start ds cs" by (simp add: from_start_def c j_def)
  have gi: "getitem g x = Inr (xs ! nat j)" "getitem g j = Inr (xs ! nat j)"
    using g len inx getitem_from_end[OF len, of x] by (auto simp: j_def)
  have si: "setitem g x w = setitem g j w" for w
    using g len inx setitem_from_end[OF len, of x w] by (auto simp: j_def)
  have nth: "shaped leaf ds (xs ! nat j)" using sub j len by auto
  show ?case
  proof (cases ds)
    case Nil
    then have "cs = []" using cs by (simp add: py_range_def)
    then show ?thesis using fs gi si c by (auto simp: from_start_def split: sum.splits)
  next
    case (Cons d' ds')
    then have csne: "cs \<noteq> []" using cs by (auto simp: py_range_Cons)
    then have fne: "from_start ds cs \<noteq> []" using cs Cons by (auto simp: from_start_def py_range_Cons)
    from Cons.IH[OF nth _ cs] Cons show ?thesis
      using gi si c csne fne fs
      by (auto simp: get_val_Cons set_val_Cons update_pos_Cons split: sum.splits)
  qed
qed

lemma shaped_mono:
  "shaped leaf dims g \<Longrightarrow> (\<And>w. leaf w \<Longrightarrow> leaf' w) \<Longrightarrow> shaped leaf' dims g"
proof (induction dims arbitrary: g)
  case Nil then show ?case by simp
next
  case (Cons d ds)
  from Cons.prems(1) obtain xs where g: "g = Rows xs" "int (length xs) = d"
    "\<forall>x\<in>set xs. shaped leaf ds x" by (auto simp: shaped_Cons)
  have "\<forall>x\<in>set xs. shaped leaf' ds x" using g(3) Cons.IH Cons.prems(2) by blast
  then show ?case using g(1,2) by simp
qed

lemma update_pos_cases:
  "get_val g c = Inr old \<Longrightarrow>
   update_pos g c d = (case py_add old d of Inl e \<Rightarrow> Inl TypeError | Inr new \<Rightarrow> set_val g c new)"
proof (induction g c arbitrary: old rule: get_val.induct)
  case (1 grid) then show ?case by simp
next
  case (2 grid c) then show ?case by (cases old) auto
next
  case (3 grid c v va)
  then show ?case by (auto split: sum.splits)
qed

lemma set_val_writes:
  assumes "shaped leaf dims g" and "dims \<noteq> []" and "py_range dims c"
  shows "\<exists>g'. set_val g c v = Inr g' \<and> get_val g' (from_start dims c) = Inr v \<and>
           get_val g' c = Inr v \<and>
           (\<forall>c'. in_range dims c' \<longrightarrow> c' \<noteq> from_start dims c \<longrightarrow> get_val g' c' = get_val g c')"
proof -
  let ?leaf = "\<lambda>w. leaf w \<or> w = v"
  have sh: "shaped ?leaf dims g" by (rule shaped_mono[OF assms(1)]) simp
  have ir: "in_range dims (from_start dims c)" by (rule in_range_from_start[OF assms(3)])
  from set_val_shaped[OF sh assms(2) ir, of v] obtain g' where
    g': "set_val g (from_start dims c) v = Inr g'" "shaped ?leaf dims g'"
    "get_val g' (from_start dims c) = Inr v"
    "\<forall>c'. in_range dims c' \<longrightarrow> c' \<noteq> from_start dims c \<longrightarrow> get_val g' c' = get_val g c'"
    by auto
  have "set_val g c v = Inr g'"
    using access_from_end[OF assms, of v] g'(1) by simp
  moreover have "get_val g' c = Inr v"
    using access_from_end[OF g'(2) assms(2,3), of v] g'(3) by simp
  ultimately show ?thesis using g'(3,4) by blast
qed

text \<open>C9, as the code has it: on a grid of shape \<open>dims\<close> and a coordinate with one index
  per axis, \<open>get_val\<close>, \<open>set_val\<close> and \<open>update_pos\<close> raise \<open>IndexError\<close> exactly when
  some index lies outside \<open>[-dims ! i, dims ! i - 1]\<close>. With every index inside, an index
  in \<open>[-dims ! i, -1]\<close> addresses the cell counted from the end of its axis, and the
  access goes through: \<open>get_val\<close> returns that cell, \<open>set_val\<close> returns the grid with the
  value written at that cell and every other cell as it was, and \<open>update_pos\<close> does the
  same with the old count plus the increment (on a mine it raises \<open>TypeError\<close>, never
  \<open>IndexError\<close>).\<close>

theorem grid_access_bounds:
  assumes "shaped leaf dims g" and "dims \<noteq> []" and "length c = length dims"
  shows "if py_range dims c
         then in_range dims (from_start dims c) \<and>
              get_val g c = get_val g (from_start dims c) \<and>
              (\<exists>w. get_val g c = Inr w \<and> leaf w) \<and>
              set_val g c v = set_val g (from_start dims c) v \<and>
              update_pos g c k = update_pos g (from_start dims c) k \<and>
              (\<exists>g'. set_val g c v = Inr g' \<and> get_val g' c = Inr v \<and>
                 get_val g' (from_start dims c) = Inr v \<and>
                 (\<forall>c'. in_range dims c' \<longrightarrow> c' \<noteq> from_start dims c \<longrightarrow>
                    get_val g' c' = get_val g c')) \<and>
              update_pos g c k \<noteq> Inl IndexError \<and>
              (get_val g c = Inr Mine \<longrightarrow> update_pos g c k = Inl TypeError) \<and>
              (\<forall>n. get_val g c = Inr (Num n) \<longrightarrow>
                 (\<exists>g'. update_pos g c k = Inr g' \<and> get_val g' c = Inr (Num (n + k)) \<and>
                    get_val g' (from_start dims c) = Inr (Num (n + k)) \<and>
                    (\<forall>c'. in_range dims c' \<longrightarrow> c' \<noteq> from_start dims c \<longrightarrow>
                       get_val g' c' = get_val g c')))
         else get_val g c = Inl IndexError \<and> set_val g c v = Inl IndexError \<and>
              update_pos g c k = Inl IndexError"
proof (cases "py_range dims c")
  case True
  note fe = access_from_end[OF assms(1,2) True]
  have ir: "in_range dims (from_start dims c)" by (rule in_range_from_start[OF True])
  from get_val_shaped[OF assms(1,2) ir] obtain w where
    w: "get_val g (from_start dims c) = Inr w" "leaf w" by blast
  then have gw: "get_val g c = Inr w" using fe[of v k] by simp
  have wr: "\<exists>g'. set_val g c u = Inr g' \<and> get_val g' c = Inr u \<and>
      get_val g' (from_start dims c) = Inr u \<and>
      (\<forall>c'. in_range dims c' \<longrightarrow> c' \<noteq> from_start dims c \<longrightarrow> get_val g' c' = get_val g c')"
    for u using set_val_writes[OF assms(1,2) True, of u] by blast
  note up = update_pos_cases[OF gw, of k]
  have ni: "update_pos g c k \<noteq> Inl IndexError"
  proof (cases "py_add w k")
    case (Inl e) then show ?thesis using up by simp
  next
    case (Inr new) then show ?thesis using up wr[of new] by auto
  qed
  have mine: "get_val g c = Inr Mine \<longrightarrow> update_pos g c k = Inl TypeError"
    using up gw by auto
  have num: "\<forall>n. get_val g c = Inr (Num n) \<longrightarrow>
      (\<exists>g'. update_pos g c k = Inr g' \<and> get_val g' c = Inr (Num (n + k)) \<and>
         get_val g' (from_start dims c) = Inr (Num (n + k)) \<and>
         (\<forall>c'. in_range dims c' \<longrightarrow> c' \<noteq> from_start dims c \<longrightarrow> get_val g' c' = get_val g c'))"
  proof (intro allI impI)
    fix n assume "get_val g c = Inr (Num n)"
    then have "update_pos g c k = set_val g c (Num (n + k))" using up gw by simp
    then show "\<exists>g'. update_pos g c k = Inr g' \<and> get_val g' c = Inr (Num (n + k)) \<and>
         get_val g' (from_start dims c) = Inr (Num (n + k)) \<and>
         (\<forall>c'. in_range dims c' \<longrightarrow> c' \<noteq> from_start dims c \<longrightarrow> get_val g' c' = get_val g c')"
      using wr[of "Num (n + k)"] by simp
  qed
  have first: "in_range dims (from_start dims c) \<and>
      get_val g c = get_val g (from_start dims c) \<and> (\<exists>w. get_val g c = Inr w \<and> leaf w) \<and>
      set_val g c v = set_val g (from_start dims c) v \<and>
      update_pos g c k = update_pos g (from_start dims c) k"
    using ir fe[of v k] gw w by auto
  show ?thesis unfolding if_P[OF True] using first wr[of v] ni mine num by blast
next
  case False
  then show ?thesis using access_outside[OF assms False] by simp
qed

theorem grid_access_bounds_witness:
  "get_val (Rows [Num 1, Num 2, Num 3]) [3] = Inl IndexError \<and>
   set_val (Rows [Num 1, Num 2, Num 3]) [3] (Num 0) = Inl IndexError \<and>
   update_pos (Rows [Num 1, Num 2, Num 3]) [3] 1 = Inl IndexError \<and>
   get_val (Rows [Num 1, Num 2, Num 3]) [-4] = Inl IndexError \<and>
   get_val (Rows [Num 1, Num 2, Num 3]) [-3] = get_val (Rows [Num 1, Num 2, Num 3]) [0] \<and>
   (\<exists>g'. set_val (Rows [Num 1, Num 2, Num 3]) [-3] (Num 0) = Inr g' \<and>
       get_val g' [0] = Inr (Num 0) \<and> get_val g' [1] = Inr (Num 2)) \<and>
   (\<exists>g'. update_pos (Rows [Num 1, Num 2, Num 3]) [-3] 1 = Inr g' \<and>
       get_val g' [0] = Inr (Num 2) \<and> get_val g' [1] = Inr (Num 2))"
proof -
  let ?g = "Rows [Num 1, Num 2, Num 3]"
  have sh: "shaped is_cell [3] ?g" by simp
  have out: "get_val ?g [3] = Inl IndexError \<and> set_val ?g [3] (Num 0) = Inl IndexError \<and>
      update_pos ?g [3] 1 = Inl IndexError"
    using grid_access_bounds [OF sh, of "[3]" "Num 0" 1] by (simp add: py_range_def)
  have out2: "get_val ?g [-4] = Inl IndexError"
    using grid_access_bounds [OF sh, of "[-4]" "Num 0" 1] by (simp add: py_range_def)
  have pr: "py_range [3] [-3]" by (simp add: py_range_def)
  have fs: "from_start [3] [-3] = [0]" by (simp add: from_start_def)
  have gv: "get_val ?g [0] = Inr (Num 1)" "get_val ?g [1] = Inr (Num 2)" by simp_all
  have ne: "[3::int] \<noteq> []" and len: "length [-3::int] = length [3::int]" by simp_all
  note T = grid_access_bounds [OF sh ne len, of "Num 0" 1, unfolded if_P[OF pr] fs]
  have acc: "get_val ?g [-3] = get_val ?g [0]"
    "\<exists>g'. set_val ?g [-3] (Num 0) = Inr g' \<and> get_val g' [-3] = Inr (Num 0) \<and>
        get_val g' [0] = Inr (Num 0) \<and>
        (\<forall>c'. in_range [3] c' \<longrightarrow> c' \<noteq> [0] \<longrightarrow> get_val g' c' = get_val ?g c')"
    "\<forall>n. get_val ?g [-3] = Inr (Num n) \<longrightarrow>
       (\<exists>g'. update_pos ?g [-3] 1 = Inr g' \<and> get_val g' [-3] = Inr (Num (n + 1)) \<and>
          get_val g' [0] = Inr (Num (n + 1)) \<and>
          (\<forall>c'. in_range [3] c' \<longrightarrow> c' \<noteq> [0] \<longrightarrow> get_val g' c' = get_val ?g c'))"
    using T by blast+
  have w: "\<exists>g'. set_val ?g [-3] (Num 0) = Inr g' \<and> get_val g' [0] = Inr (Num 0) \<and>
      get_val g' [1] = Inr (Num 2)"
  proof -
    from acc(2) obtain g' where g': "set_val ?g [-3] (Num 0) = Inr g'"
      "get_val g' [0] = Inr (Num 0)"
      "\<forall>c'. in_range [3] c' \<longrightarrow> c' \<noteq> [0] \<longrightarrow> get_val g' c' = get_val ?g c'" by blast
    from g'(3)[rule_format, of "[1]"] have "get_val g' [1] = Inr (Num 2)" by simp
    with g'(1,2) show ?thesis by blast
  qed
  have u: "\<exists>g'. update_pos ?g [-3] 1 = Inr g' \<and> get_val g' [0] = Inr (Num 2) \<and>
      get_val g' [1] = Inr (Num 2)"
  proof -
    have "get_val ?g [-3] = Inr (Num 1)" using acc(1) gv(1) by simp
    with acc(3) obtain g' where g': "update_pos ?g [-3] 1 = Inr g'"
      "get_val g' [0] = Inr (Num (1 + 1))"
      "\<forall>c'. in_range [3] c' \<longrightarrow> c' \<noteq> [0] \<longrightarrow> get_val g' c' = get_val ?g c'" by blast
    from g'(3)[rule_format, of "[1]"] have "get_val g' [1] = Inr (Num 2)" by simp
    with g'(1,2) show ?thesis by simp
  qed
  show ?thesis using out out2 acc(1) w u by blast
qed

text \<open>C9 as stated fails: \<open>-1\<close> is outside \<open>[0, 2]\<close>, and the three accessors read and
  write the last cell of a row of three.\<close>

theorem grid_access_wraps:
  "shaped is_cell [3] (Rows [Num 1, Num 2, Num 3]) \<and> \<not> in_range [3] [-1] \<and>
   get_val (Rows [Num 1, Num 2, Num 3]) [-1] = Inr (Num 3) \<and>
   set_val (Rows [Num 1, Num 2, Num 3]) [-1] (Num 0) = Inr (Rows [Num 1, Num 2, Num 0]) \<and>
   update_pos (Rows [Num 1, Num 2, Num 3]) [-1] 1 = Inr (Rows [Num 1, Num 2, Num 4])"
  by (simp add: list_index_def)

section \<open>The neighbour set\<close>

lemma list_all2_snoc1:
  "list_all2 P (xs @ [x]) zs \<longleftrightarrow> (\<exists>ys y. zs = ys @ [y] \<and> list_all2 P xs ys \<and> P x y)"
proof
  assume "list_all2 P (xs @ [x]) zs"
  then show "\<exists>ys y. zs = ys @ [y] \<and> list_all2 P xs ys \<and> P x y"
    by (auto simp: list_all2_append1 list_all2_Cons1)
next
  assume "\<exists>ys y. zs = ys @ [y] \<and> list_all2 P xs ys \<and> P x y"
  then obtain ys y where "zs = ys @ [y]" "list_all2 P xs ys" "P x y" by blast
  then show "list_all2 P (xs @ [x]) zs" by (simp add: list_all2_appendI)
qed

lemma list_all2_snoc2:
  "list_all2 P zs (xs @ [x]) \<longleftrightarrow> (\<exists>ys y. zs = ys @ [y] \<and> list_all2 P ys xs \<and> P y x)"
proof
  assume "list_all2 P zs (xs @ [x])"
  then show "\<exists>ys y. zs = ys @ [y] \<and> list_all2 P ys xs \<and> P y x"
    by (auto simp: list_all2_append2 list_all2_Cons2)
next
  assume "\<exists>ys y. zs = ys @ [y] \<and> list_all2 P ys xs \<and> P y x"
  then obtain ys y where "zs = ys @ [y]" "list_all2 P ys xs" "P y x" by blast
  then show "list_all2 P zs (xs @ [x])" by (simp add: list_all2_appendI)
qed

lemma adjacent_snoc:
  "adjacent (p @ [l]) n \<longleftrightarrow> (\<exists>m y. n = m @ [y] \<and> adjacent p m \<and> \<bar>l - y\<bar> \<le> 1)"
  unfolding adjacent_def by (rule list_all2_snoc1)

lemma in_range_snoc:
  "in_range (pd @ [d]) n \<longleftrightarrow> (\<exists>m y. n = m @ [y] \<and> in_range pd m \<and> 0 \<le> y \<and> y < d)"
  unfolding in_range_def by (simp add: list_all2_snoc2 conj_assoc)

lemma snoc_step:
  assumes "0 \<le> l" "l < d" "N = {n. adjacent p n \<and> in_range pd n}"
  shows "(if l \<ge> 1 then (\<lambda>n. n @ [l - 1]) ` N else {}) \<union>
         (if l \<le> d - 2 then (\<lambda>n. n @ [l + 1]) ` N else {}) \<union> (\<lambda>n. n @ [l]) ` N =
         {n. adjacent (p @ [l]) n \<and> in_range (pd @ [d]) n}" (is "?L = ?R")
proof (rule set_eqI)
  fix n
  show "n \<in> ?L \<longleftrightarrow> n \<in> ?R"
  proof
    assume "n \<in> ?L"
    then obtain m y where n: "n = m @ [y]" and m: "m \<in> N"
      and y: "y = l - 1 \<and> l \<ge> 1 \<or> y = l + 1 \<and> l \<le> d - 2 \<or> y = l"
      by (auto split: if_splits)
    then show "n \<in> ?R" using assms by (auto simp: adjacent_snoc in_range_snoc)
  next
    assume "n \<in> ?R"
    then obtain m y where n: "n = m @ [y]" and m: "adjacent p m" "in_range pd m"
      and y: "\<bar>l - y\<bar> \<le> 1" "0 \<le> y" "y < d"
      by (auto simp: adjacent_snoc in_range_snoc)
    from y have "y = l - 1 \<and> l \<ge> 1 \<or> y = l + 1 \<and> l \<le> d - 2 \<or> y = l" by auto
    moreover have "m \<in> N" using m assms(3) by simp
    ultimately show "n \<in> ?L" using n by auto
  qed
qed

lemma extend_axes_in_range:
  "in_range ds ls \<Longrightarrow> N = {n. adjacent p n \<and> in_range pd n} \<Longrightarrow>
   extend_axes ds ls N = Inr {n. adjacent (p @ ls) n \<and> in_range (pd @ ds) n}"
proof (induction ds arbitrary: ls N p pd)
  case Nil then show ?case by simp
next
  case (Cons d ds)
  then obtain l ls' where ls: "ls = l # ls'" and l: "0 \<le> l" "l < d" and r: "in_range ds ls'"
    by (auto simp: in_range_Cons)
  from Cons.IH[OF r snoc_step[OF l Cons.prems(2)]] show ?case
    using ls by simp
qed

lemma axis0_in_range:
  assumes "0 \<le> l" "l < d"
  shows "axis0 (d # ds) (l # ls) = Inr {n. adjacent [l] n \<and> in_range [d] n}"
proof -
  have N: "{[]} = {n. adjacent [] n \<and> in_range [] n}" by (auto simp: adjacent_def)
  have S: "(if l \<ge> 1 then (\<lambda>n. n @ [l - 1]) ` {[]} else {}) \<union>
           (if l \<le> d - 2 then (\<lambda>n. n @ [l + 1]) ` {[]} else {}) \<union> (\<lambda>n. n @ [l]) ` {[]} =
        {n. adjacent [l] n \<and> in_range [d] n}"
    using snoc_step[OF assms N] by (simp only: append_Nil)
  show ?thesis by (subst S[symmetric]) (simp add: axis0_def)
qed

lemma get_neighors_nd_in_range:
  assumes "dims \<noteq> []" "in_range dims location"
  shows "get_neighors_nd dims location = Inr {n. adjacent location n \<and> in_range dims n}"
proof -
  from assms obtain d ds l ls where d: "dims = d # ds" "location = l # ls" "0 \<le> l" "l < d"
    "in_range ds ls" by (cases dims) (auto simp: in_range_Cons)
  show ?thesis
    using extend_axes_in_range[OF d(5), of _ "[l]" "[d]"] axis0_in_range[OF d(3,4), of ds ls] d(1,2)
    by (simp add: get_neighors_nd_def)
qed

lemma adjacent_Cons:
  "adjacent (l # ls) n \<longleftrightarrow> (\<exists>y m. n = y # m \<and> \<bar>l - y\<bar> \<le> 1 \<and> adjacent ls m)"
  by (simp add: adjacent_def list_all2_Cons1)

lemma set_shifts: "set (shifts c) = {n. adjacent c n}"
proof (induction c)
  case Nil then show ?case by (auto simp: adjacent_def)
next
  case (Cons l ls)
  have near: "\<bar>l - y\<bar> \<le> 1 \<longleftrightarrow> y = l - 1 \<or> y = l \<or> y = l + 1" for y by arith
  have "set (shifts (l # ls)) =
      ((#) (l - 1)) ` set (shifts ls) \<union> ((#) l) ` set (shifts ls) \<union> ((#) (l + 1)) ` set (shifts ls)"
    by (simp add: Un_assoc)
  also have "\<dots> = {n. adjacent (l # ls) n}"
    unfolding Cons.IH adjacent_Cons near by blast
  finally show ?case .
qed

lemma adjacent_refl: "adjacent c c"
  by (simp add: adjacent_def list_all2_refl)

lemma adjacent_sym: "adjacent c n \<Longrightarrow> adjacent n c"
  unfolding adjacent_def list_all2_conv_all_nth by (simp add: abs_minus_commute)

lemma finite_shifted: "finite {n. adjacent c n \<and> in_range dims n}"
proof (rule finite_subset)
  show "{n. adjacent c n \<and> in_range dims n} \<subseteq> set (shifts c)"
    unfolding set_shifts by blast
  show "finite (set (shifts c))" by (rule finite_set)
qed

lemma valid_sorted_order: "valid_order sorted_order"
  by (simp add: valid_order_def sorted_order_def)

text \<open>C3: for a board with at least one axis and a coordinate in range on every axis,
  \<open>get_neighors_nd\<close> returns exactly the coordinates obtained by shifting each axis by
  -1, 0 or +1 that stay in \<open>[0, dims ! i - 1]\<close> on every axis. The set contains the
  coordinate itself and only in-range coordinates; being a finite set it holds no
  coordinate twice, so a loop over it visits each neighbour once.\<close>

theorem get_neighors_nd_exact:
  assumes "dims \<noteq> []" and "in_range dims location"
  shows "get_neighors_nd dims location = Inr (shifted_in_bounds dims location) \<and>
         location \<in> shifted_in_bounds dims location \<and>
         (\<forall>n \<in> shifted_in_bounds dims location. in_range dims n) \<and>
         finite (shifted_in_bounds dims location) \<and>
         (valid_order iter \<longrightarrow>
            distinct (iter dims location (shifted_in_bounds dims location)) \<and>
            set (iter dims location (shifted_in_bounds dims location)) = shifted_in_bounds dims location)"
proof -
  have eq: "shifted_in_bounds dims location = {n. adjacent location n \<and> in_range dims n}"
    by (auto simp: shifted_in_bounds_def set_shifts)
  have fin: "finite (shifted_in_bounds dims location)" unfolding eq by (rule finite_shifted)
  show ?thesis
    using get_neighors_nd_in_range[OF assms] assms(2) fin
    by (auto simp: eq adjacent_refl valid_order_def)
qed

theorem get_neighors_nd_exact_witness:
  "in_range [2, 4] [0, 3] \<and> valid_order sorted_order \<and>
   get_neighors_nd [2, 4] [0, 3] = Inr {[0, 2], [0, 3], [1, 2], [1, 3]} \<and>
   shifted_in_bounds [2, 4] [0, 3] = {[0, 2], [0, 3], [1, 2], [1, 3]} \<and>
   distinct (sorted_order [2, 4] [0, 3] {[0, 2], [0, 3], [1, 2], [1, 3]}) \<and>
   set (sorted_order [2, 4] [0, 3] {[0, 2], [0, 3], [1, 2], [1, 3]}) =
     {[0, 2], [0, 3], [1, 2], [1, 3]}"
proof -
  have "shifted_in_bounds [2, 4] [0, 3] = {[0, 2], [0, 3], [1, 2], [1, 3]}"
    by (simp add: shifted_in_bounds_def in_range_def insert_commute)
  then show ?thesis
    using get_neighors_nd_exact [of "[2, 4]" "[0, 3]" sorted_order] valid_sorted_order
    by simp
qed

section \<open>Board construction\<close>

lemma place_bombs_ok:
  "\<forall>b\<in>set bombs. \<exists>x. b = [x] \<and> 0 \<le> x \<and> x < int (length xs) \<Longrightarrow>
   \<exists>ys. place_bombs (Rows xs) bombs = Inr (Rows ys) \<and> length ys = length xs \<and>
     (\<forall>i<length xs. ys ! i = (if [int i] \<in> set bombs then Mine else xs ! i))"
proof (induction bombs arbitrary: xs)
  case Nil then show ?case by simp
next
  case (Cons bomb rest)
  then obtain x where x: "bomb = [x]" "0 \<le> x" "x < int (length xs)" by auto
  have "\<forall>b\<in>set rest. \<exists>y. b = [y] \<and> 0 \<le> y \<and> y < int (length (xs[nat x := Mine]))"
    using Cons.prems by simp
  from Cons.IH[OF this] obtain ys where ys:
    "place_bombs (Rows (xs[nat x := Mine])) rest = Inr (Rows ys)" "length ys = length xs"
    "\<forall>i<length xs. ys ! i = (if [int i] \<in> set rest then Mine else xs[nat x := Mine] ! i)"
    by auto
  have "place_bombs (Rows xs) (bomb # rest) = Inr (Rows ys)" using x ys(1) by simp
  moreover have "ys ! i = (if [int i] \<in> set (bomb # rest) then Mine else xs ! i)"
    if "i < length xs" for i
  proof (cases "i = nat x")
    case True then show ?thesis using ys(3) that x by auto
  next
    case False
    then have "int i \<noteq> x" using x by auto
    then show ?thesis using ys(3) that x False by auto
  qed
  ultimately show ?case using ys(2) by blast
qed

lemma smaller_bombs_ok:
  "\<forall>b\<in>set bombs. b \<noteq> [] \<Longrightarrow> smaller_bombs i bombs = Inr (map tl (filter (\<lambda>b. hd b = i) bombs))"
proof (induction bombs)
  case Nil then show ?case by simp
next
  case (Cons bomb rest)
  then obtain b0 bs where "bomb = b0 # bs" by (cases bomb) auto
  then show ?case using Cons by simp
qed

lemma collect_ok: "\<forall>i\<in>set is. f i = Inr (G i) \<Longrightarrow> collect f is = Inr (map G is)"
  by (induction "is") auto

lemma shaped_replicate: "0 \<le> d \<Longrightarrow> leaf v \<Longrightarrow> shaped leaf [d] (Rows (replicate (nat d) v))"
  by simp

lemma in_range_single: "in_range [d] c \<longleftrightarrow> (\<exists>x. c = [x] \<and> 0 \<le> x \<and> x < d)"
  by (auto simp: in_range_Cons)

lemma create_game_0_one:
  assumes "0 \<le> d" and "\<forall>b\<in>set bombs. in_range [d] b"
  shows "\<exists>g. create_game_0 [d] bombs = Inr g \<and> fresh_game [d] bombs g"
proof -
  let ?xs = "replicate (nat d) (Num 0)"
  have "\<forall>b\<in>set bombs. \<exists>x. b = [x] \<and> 0 \<le> x \<and> x < int (length ?xs)"
    using assms by (auto simp: in_range_single)
  from place_bombs_ok[OF this] obtain ys where ys:
    "place_bombs (Rows ?xs) bombs = Inr (Rows ys)" "length ys = nat d"
    "\<forall>i<nat d. ys ! i = (if [int i] \<in> set bombs then Mine else Num 0)" by auto
  let ?g = "\<lparr>dimensions = [d], board = Rows ys, hidden = Rows (replicate (nat d) (Flag True)),
             state = Ongoing, squares_left = d - int (length bombs)\<rparr>"
  have cg: "create_game_0 [d] bombs = Inr ?g" using ys(1) by simp
  have "is_cell y" if "y \<in> set ys" for y
  proof -
    from that obtain i where "i < length ys" "y = ys ! i" by (auto simp: in_set_conv_nth)
    then show ?thesis using ys(2,3) by auto
  qed
  then have shb: "shaped is_cell [d] (Rows ys)" using ys(2) assms(1) by simp
  have shh: "shaped is_flag [d] (Rows (replicate (nat d) (Flag True)))"
    using assms(1) by simp
  have cells: "get_val (Rows ys) c = Inr (if c \<in> set bombs then Mine else Num 0) \<and>
      get_val (Rows (replicate (nat d) (Flag True))) c = Inr (Flag True)" if "in_range [d] c" for c
  proof -
    from that obtain x where x: "c = [x]" "0 \<le> x" "x < d" by (auto simp: in_range_single)
    then have "nat x < nat d" by auto
    then show ?thesis using x ys(2,3) by auto
  qed
  have "fresh_game [d] bombs ?g"
    unfolding fresh_game_def using shb shh cells by simp
  with cg show ?thesis by blast
qed

lemma create_game_0_ok:
  "\<forall>d\<in>set (d # ds). 0 \<le> d \<Longrightarrow> \<forall>b\<in>set bombs. in_range (d # ds) b \<Longrightarrow>
   \<exists>g. create_game_0 (d # ds) bombs = Inr g \<and> fresh_game (d # ds) bombs g"
proof (induction ds arbitrary: d bombs)
  case Nil
  then show ?case using create_game_0_one[of d bombs] by simp
next
  case (Cons d' ds)
  let ?sb = "\<lambda>i. map tl (filter (\<lambda>b. hd b = int i) bombs)"
  have ne: "\<forall>b\<in>set bombs. b \<noteq> []" using Cons.prems(2) by (auto simp: in_range_Cons)
  have sbr: "\<forall>b\<in>set (?sb i). in_range (d' # ds) b" for i
    using Cons.prems(2) by (auto simp: in_range_Cons)
  have nonneg: "\<forall>d\<in>set (d' # ds). 0 \<le> d" using Cons.prems(1) by simp
  define G where "G i = projr (create_game_0 (d' # ds) (?sb i))" for i
  have G: "create_game_0 (d' # ds) (?sb i) = Inr (G i) \<and> fresh_game (d' # ds) (?sb i) (G i)" for i
    using Cons.IH[OF nonneg sbr[of i]] unfolding G_def by auto
  let ?f = "\<lambda>i. case smaller_bombs (int i) bombs of Inl e \<Rightarrow> Inl e
                  | Inr sb \<Rightarrow> create_game_0 (d' # ds) sb"
  have "\<forall>i\<in>set [0..<nat d]. ?f i = Inr (G i)"
    using smaller_bombs_ok[OF ne] G by simp
  from collect_ok[OF this] have col: "collect ?f [0..<nat d] = Inr (map G [0..<nat d])" .
  let ?g = "\<lparr>dimensions = d # d' # ds, board = Rows (map board (map G [0..<nat d])),
             hidden = Rows (map hidden (map G [0..<nat d])), state = Ongoing,
             squares_left = prod_list (d # d' # ds) - int (length bombs)\<rparr>"
  have cg: "create_game_0 (d # d' # ds) bombs = Inr ?g" using col by simp
  have d0: "0 \<le> d" using Cons.prems(1) by simp
  have shb: "shaped is_cell (d # d' # ds) (board ?g)"
    using G d0 by (auto simp: fresh_game_def)
  have shh: "shaped is_flag (d # d' # ds) (hidden ?g)"
    using G d0 by (auto simp: fresh_game_def)
  have cells: "get_val (board ?g) c = Inr (if c \<in> set bombs then Mine else Num 0) \<and>
      get_val (hidden ?g) c = Inr (Flag True)" if "in_range (d # d' # ds) c" for c
  proof -
    from that obtain x cs where c: "c = x # cs" "0 \<le> x" "x < d" "in_range (d' # ds) cs"
      by (auto simp: in_range_Cons)
    then have csne: "cs \<noteq> []" by (auto simp: in_range_Cons)
    have nx: "nat x < nat d" using c by auto
    have mem: "cs \<in> set (?sb (nat x)) \<longleftrightarrow> x # cs \<in> set bombs"
    proof
      assume "cs \<in> set (?sb (nat x))"
      then obtain b where b: "b \<in> set bombs" "hd b = x" "tl b = cs" using c(2) by auto
      with ne have "b = x # cs" by (cases b) auto
      with b show "x # cs \<in> set bombs" by simp
    next
      assume "x # cs \<in> set bombs"
      then show "cs \<in> set (?sb (nat x))" using c(2) by force
    qed
    have "get_val (board (G (nat x))) cs = Inr (if cs \<in> set (?sb (nat x)) then Mine else Num 0)"
      "get_val (hidden (G (nat x))) cs = Inr (Flag True)"
      using G[of "nat x"] c(4) by (auto simp: fresh_game_def)
    then show ?thesis using c csne nx mem by (simp add: get_val_Cons)
  qed
  have "fresh_game (d # d' # ds) bombs ?g"
    unfolding fresh_game_def using shb shh cells by simp
  with cg show ?case by blast
qed

lemma counted_update_pos:
  assumes "counted dims bombs b f" and "dims \<noteq> []" and "in_range dims n" and "n \<notin> set bombs"
  shows "\<exists>b'. update_pos b n 1 = Inr b' \<and> counted dims bombs b' (f(n := f n + 1))"
proof -
  from assms(1) have sh: "shaped is_cell dims b"
    and cells: "\<And>c. in_range dims c \<Longrightarrow> get_val b c = Inr (if c \<in> set bombs then Mine else Num (f c))"
    by (auto simp: counted_def)
  have gv: "get_val b n = Inr (Num (f n))" using cells[OF assms(3)] assms(4) by simp
  have up: "update_pos b n 1 = set_val b n (Num (f n + 1))"
    by (rule update_pos_set_val[OF gv]) simp
  from set_val_shaped[OF sh assms(2,3), of "Num (f n + 1)"] obtain b' where b':
    "set_val b n (Num (f n + 1)) = Inr b'" "shaped is_cell dims b'"
    "get_val b' n = Inr (Num (f n + 1))"
    "\<forall>c'. in_range dims c' \<longrightarrow> c' \<noteq> n \<longrightarrow> get_val b' c' = get_val b c'" by auto
  have "counted dims bombs b' (f(n := f n + 1))"
    unfolding counted_def using b'(2,3,4) cells assms(4) by auto
  with up b'(1) show ?thesis by simp
qed

lemma counted_bump_neighbors:
  "counted dims bombs b f \<Longrightarrow> dims \<noteq> [] \<Longrightarrow> \<forall>n\<in>set ns. in_range dims n \<Longrightarrow>
   \<exists>b' f'. bump_neighbors bombs b ns = Inr b' \<and> counted dims bombs b' f' \<and>
     (\<forall>c. c \<notin> set bombs \<longrightarrow> f' c = f c + int (count_list ns c))"
proof (induction ns arbitrary: b f)
  case Nil then show ?case by auto
next
  case (Cons n ns)
  show ?case
  proof (cases "n \<in> set bombs")
    case True
    from Cons.IH[OF Cons.prems(1,2)] Cons.prems(3) obtain b' f' where
      "bump_neighbors bombs b ns = Inr b'" "counted dims bombs b' f'"
      "\<forall>c. c \<notin> set bombs \<longrightarrow> f' c = f c + int (count_list ns c)" by auto
    then show ?thesis using True by auto
  next
    case False
    from counted_update_pos[OF Cons.prems(1,2) _ False] Cons.prems(3) obtain b1 where
      b1: "update_pos b n 1 = Inr b1" "counted dims bombs b1 (f(n := f n + 1))" by auto
    from Cons.IH[OF b1(2) Cons.prems(2)] Cons.prems(3) obtain b' f' where
      r: "bump_neighbors bombs b1 ns = Inr b'" "counted dims bombs b' f'"
      "\<forall>c. c \<notin> set bombs \<longrightarrow> f' c = (f(n := f n + 1)) c + int (count_list ns c)" by auto
    have "bump_neighbors bombs b (n # ns) = Inr b'" using False b1(1) r(1) by simp
    moreover have "\<forall>c. c \<notin> set bombs \<longrightarrow> f' c = f c + int (count_list (n # ns) c)"
      using r(3) by auto
    ultimately show ?thesis using r(2) by blast
  qed
qed

lemma count_list_distinct: "distinct ns \<Longrightarrow> count_list ns c = (if c \<in> set ns then 1 else 0)"
  by (induction ns) auto

lemma counted_update_bombs_loop:
  "valid_order iter \<Longrightarrow> counted dims bombs b f \<Longrightarrow> dims \<noteq> [] \<Longrightarrow> \<forall>m\<in>set bs. in_range dims m \<Longrightarrow>
   \<exists>b' f'. update_bombs_loop iter dims bombs b bs = Inr b' \<and> counted dims bombs b' f' \<and>
     (\<forall>c. in_range dims c \<longrightarrow> c \<notin> set bombs \<longrightarrow>
        f' c = f c + int (length (filter (\<lambda>m. adjacent m c) bs)))"
proof (induction bs arbitrary: b f)
  case Nil then show ?case by auto
next
  case (Cons m bs)
  let ?S = "{n. adjacent m n \<and> in_range dims n}"
  have mr: "in_range dims m" using Cons.prems(4) by simp
  have nb: "get_neighors_nd dims m = Inr ?S"
    by (rule get_neighors_nd_in_range[OF Cons.prems(3) mr])
  have fin: "finite ?S" by (rule finite_shifted)
  with Cons.prems(1) have it: "set (iter dims m ?S) = ?S" "distinct (iter dims m ?S)"
    by (auto simp: valid_order_def)
  then have "\<forall>n\<in>set (iter dims m ?S). in_range dims n" by simp
  from counted_bump_neighbors[OF Cons.prems(2,3) this] obtain b1 f1 where
    b1: "bump_neighbors bombs b (iter dims m ?S) = Inr b1" "counted dims bombs b1 f1"
    "\<forall>c. c \<notin> set bombs \<longrightarrow> f1 c = f c + int (count_list (iter dims m ?S) c)" by blast
  from Cons.IH[OF Cons.prems(1) b1(2) Cons.prems(3)] Cons.prems(4) obtain b' f' where
    r: "update_bombs_loop iter dims bombs b1 bs = Inr b'" "counted dims bombs b' f'"
    "\<forall>c. in_range dims c \<longrightarrow> c \<notin> set bombs \<longrightarrow>
        f' c = f1 c + int (length (filter (\<lambda>m. adjacent m c) bs))" by auto
  have "update_bombs_loop iter dims bombs b (m # bs) = Inr b'" using nb b1(1) r(1) by simp
  moreover have "f' c = f c + int (length (filter (\<lambda>m. adjacent m c) (m # bs)))"
    if "in_range dims c" "c \<notin> set bombs" for c
    using r(3) b1(3) that count_list_distinct[OF it(2), of c] it(1) by auto
  ultimately show ?case using r(2) by blast
qed

lemma new_game_nd_ok:
  assumes "valid_order iter" and "dims \<noteq> []" and "\<forall>d\<in>set dims. 0 \<le> d"
    and "\<forall>b\<in>set bombs. in_range dims b"
  shows "\<exists>g0 b. create_game_0 dims bombs = Inr g0 \<and> fresh_game dims bombs g0 \<and>
           new_game_nd iter dims bombs = Inr (g0\<lparr>board := b\<rparr>) \<and> shaped is_cell dims b \<and>
           (\<forall>c. in_range dims c \<longrightarrow> get_val b c =
              Inr (if c \<in> set bombs then Mine
                   else Num (int (length (filter (\<lambda>m. adjacent m c) bombs)))))"
proof -
  from assms(2) obtain d ds where dims: "dims = d # ds" by (cases dims) auto
  from create_game_0_ok[of d ds bombs] assms(3,4) dims obtain g0 where
    g0: "create_game_0 dims bombs = Inr g0" "fresh_game dims bombs g0" by auto
  then have "counted dims bombs (board g0) (\<lambda>c. 0)" by (simp add: fresh_game_def counted_def)
  from counted_update_bombs_loop[OF assms(1) this assms(2,4)] obtain b f' where
    b: "update_bombs_loop iter dims bombs (board g0) bombs = Inr b" "counted dims bombs b f'"
    "\<forall>c. in_range dims c \<longrightarrow> c \<notin> set bombs \<longrightarrow>
        f' c = 0 + int (length (filter (\<lambda>m. adjacent m c) bombs))" by blast
  have "new_game_nd iter dims bombs = Inr (g0\<lparr>board := b\<rparr>)"
    using g0(1) b(1) by (simp add: new_game_nd_def update_bombs_nd_def)
  moreover have "get_val b c = Inr (if c \<in> set bombs then Mine
                   else Num (int (length (filter (\<lambda>m. adjacent m c) bombs))))"
    if "in_range dims c" for c using b(2,3) that by (auto simp: counted_def)
  ultimately show ?thesis using g0 b(2) by (auto simp: counted_def)
qed

lemma mines_around_card:
  assumes "distinct bombs" and "\<forall>b\<in>set bombs. in_range dims b" and "c \<notin> set bombs"
  shows "length (filter (\<lambda>m. adjacent m c) bombs) = card (geometric_neighbors dims c \<inter> set bombs)"
proof -
  have "length (filter (\<lambda>m. adjacent m c) bombs) = card {m \<in> set bombs. adjacent m c}"
    using assms(1) by (simp add: distinct_length_filter Int_def conj_commute)
  moreover have "{m \<in> set bombs. adjacent m c} = geometric_neighbors dims c \<inter> set bombs"
    using assms(2,3) adjacent_sym by (auto simp: geometric_neighbors_def)
  ultimately show ?thesis by simp
qed

text \<open>C1: for dimensions that are all positive and a list of distinct in-range mines,
  \<open>new_game_nd\<close> returns a game whose board has the shape of the dimensions, holds the
  mine marker at every mine coordinate, and at every other cell holds the number of
  mines among the geometric neighbours of that cell. This holds for every order in
  which the neighbour sets are visited.\<close>

theorem new_game_nd_board:
  assumes "valid_order iter" and "dims \<noteq> []" and "\<forall>d\<in>set dims. 0 < d"
    and "distinct bombs" and "\<forall>b\<in>set bombs. in_range dims b"
  shows "\<exists>g. new_game_nd iter dims bombs = Inr g \<and> shaped is_cell dims (board g) \<and>
           (\<forall>c. in_range dims c \<longrightarrow> get_val (board g) c =
              Inr (if c \<in> set bombs then Mine
                   else Num (int (card (geometric_neighbors dims c \<inter> set bombs)))))"
proof -
  have "\<forall>d\<in>set dims. 0 \<le> d" using assms(3) by auto
  from new_game_nd_ok[OF assms(1,2) this assms(5)] obtain g0 b where
    r: "new_game_nd iter dims bombs = Inr (g0\<lparr>board := b\<rparr>)" "shaped is_cell dims b"
    "\<forall>c. in_range dims c \<longrightarrow> get_val b c =
              Inr (if c \<in> set bombs then Mine
                   else Num (int (length (filter (\<lambda>m. adjacent m c) bombs))))" by blast
  have "get_val b c = Inr (if c \<in> set bombs then Mine
                   else Num (int (card (geometric_neighbors dims c \<inter> set bombs))))"
    if "in_range dims c" for c
    using r(3) that mines_around_card[OF assms(4,5), of c] by auto
  with r(1,2) show ?thesis by auto
qed

theorem new_game_nd_board_witness:
  "new_game_nd sorted_order [2, 4] [[0, 0], [1, 0], [1, 1]] =
     Inr \<lparr>dimensions = [2, 4],
          board = Rows [Rows [Mine, Num 3, Num 1, Num 0], Rows [Mine, Mine, Num 1, Num 0]],
          hidden = Rows [Rows [Flag True, Flag True, Flag True, Flag True],
                         Rows [Flag True, Flag True, Flag True, Flag True]],
          state = Ongoing, squares_left = 5\<rparr> \<and>
   (\<exists>g. new_game_nd sorted_order [2, 4] [[0, 0], [1, 0], [1, 1]] = Inr g \<and>
        get_val (board g) [0, 0] = Inr Mine \<and> get_val (board g) [0, 1] = Inr (Num 3) \<and>
        card (geometric_neighbors [2, 4] [0, 1] \<inter> set [[0, 0], [1, 0], [1, 1]]) = 3)"
proof -
  have c: "card (geometric_neighbors [2, 4] [0, 1] \<inter> set [[0, 0], [1, 0], [1, 1]]) = 3"
    by (simp add: geometric_neighbors_def adjacent_def)
  have e: "new_game_nd sorted_order [2, 4] [[0, 0], [1, 0], [1, 1]] =
     Inr \<lparr>dimensions = [2, 4],
          board = Rows [Rows [Mine, Num 3, Num 1, Num 0], Rows [Mine, Mine, Num 1, Num 0]],
          hidden = Rows [Rows [Flag True, Flag True, Flag True, Flag True],
                         Rows [Flag True, Flag True, Flag True, Flag True]],
          state = Ongoing, squares_left = 5\<rparr>"
    by code_simp
  from new_game_nd_board [of sorted_order "[2, 4]" "[[0, 0], [1, 0], [1, 1]]"]
  obtain g where g: "new_game_nd sorted_order [2, 4] [[0, 0], [1, 0], [1, 1]] = Inr g"
    "\<forall>c. in_range [2, 4] c \<longrightarrow> get_val (board g) c =
       Inr (if c \<in> set [[0, 0], [1, 0], [1, 1]] then Mine
            else Num (int (card (geometric_neighbors [2, 4] c \<inter> set [[0, 0], [1, 0], [1, 1]]))))"
    using valid_sorted_order by auto
  from g(2)[rule_format, of "[0, 0]"] have m: "get_val (board g) [0, 0] = Inr Mine" by simp
  from g(2)[rule_format, of "[0, 1]"] have n: "get_val (board g) [0, 1] = Inr (Num 3)"
    unfolding c by simp
  show ?thesis using e g(1) m n c by blast
qed

text \<open>C8, as the code has it: construction validates nothing. An empty dimensions
  tuple is rejected, by the \<open>IndexError\<close> of reading \<^verbatim>\<open>dimensions[0]\<close>; \<open>new_game_2d\<close> is
  \<open>new_game_nd\<close> on the two dimensions and adds no check; and every list of in-range
  mines is accepted, duplicates included: a game is returned, each listed mine counted
  once in \<open>squares_left\<close>.\<close>

theorem new_game_nd_unvalidated:
  assumes "valid_order iter" and "dims \<noteq> []" and "\<forall>d\<in>set dims. 0 < d"
    and "\<forall>b\<in>set bombs. in_range dims b"
  shows "new_game_nd iter [] bombs = Inl IndexError \<and>
         new_game_2d iter num_rows num_cols bombs = new_game_nd iter [num_rows, num_cols] bombs \<and>
         (\<exists>g. new_game_nd iter dims bombs = Inr g \<and>
              squares_left g = prod_list dims - int (length bombs))"
proof -
  have "\<forall>d\<in>set dims. 0 \<le> d" using assms(3) by auto
  from new_game_nd_ok[OF assms(1,2) this assms(4)] obtain g0 b where
    "fresh_game dims bombs g0" "new_game_nd iter dims bombs = Inr (g0\<lparr>board := b\<rparr>)" by blast
  then have "\<exists>g. new_game_nd iter dims bombs = Inr g \<and>
              squares_left g = prod_list dims - int (length bombs)"
    by (simp add: fresh_game_def)
  then show ?thesis by (simp add: new_game_nd_def new_game_2d_def)
qed

theorem new_game_nd_unvalidated_witness:
  "\<not> distinct [[0], [0::int]] \<and> new_game_nd sorted_order [] [[0], [0]] = Inl IndexError \<and>
   (\<exists>g. new_game_nd sorted_order [2] [[0], [0]] = Inr g \<and> squares_left g = 0)"
  using new_game_nd_unvalidated [of sorted_order "[2]" "[[0], [0]]" 2 2] valid_sorted_order
  by simp

text \<open>C8 as stated fails: a mine listed twice, a mine at index \<open>-1\<close> and a duplicate
  given to the 2-D wrapper each yield a game, not an error.\<close>

theorem new_game_nd_accepts_malformed:
  "\<not> distinct [[0], [0::int]] \<and>
   new_game_nd sorted_order [2] [[0], [0]] =
     Inr \<lparr>dimensions = [2], board = Rows [Mine, Num 2],
          hidden = Rows [Flag True, Flag True], state = Ongoing, squares_left = 0\<rparr> \<and>
   \<not> in_range [3] [-1] \<and>
   new_game_nd sorted_order [3] [[-1]] =
     Inr \<lparr>dimensions = [3], board = Rows [Num 1, Num 0, Mine],
          hidden = Rows [Flag True, Flag True, Flag True], state = Ongoing, squares_left = 2\<rparr> \<and>
   new_game_2d sorted_order 2 2 [[0, 0], [0, 0]] =
     Inr \<lparr>dimensions = [2, 2], board = Rows [Rows [Mine, Num 2], Rows [Num 2, Num 2]],
          hidden = Rows [Rows [Flag True, Flag True], Rows [Flag True, Flag True]],
          state = Ongoing, squares_left = 2\<rparr>"
  by code_simp

section \<open>The invariant of squares\_left\<close>

lemma set_all_coords: "set (all_coords dims) = {c. in_range dims c}"
proof (induction dims)
  case Nil then show ?case by auto
next
  case (Cons d ds)
  show ?case
  proof (rule set_eqI)
    fix c
    have "c \<in> set (all_coords (d # ds)) \<longleftrightarrow> (\<exists>i<nat d. \<exists>cs. in_range ds cs \<and> c = int i # cs)"
      using Cons.IH by auto
    also have "\<dots> \<longleftrightarrow> (\<exists>x cs. c = x # cs \<and> 0 \<le> x \<and> x < d \<and> in_range ds cs)"
    proof
      assume "\<exists>i<nat d. \<exists>cs. in_range ds cs \<and> c = int i # cs"
      then obtain i cs where "i < nat d" "in_range ds cs" "c = int i # cs" by blast
      then have "c = int i # cs \<and> 0 \<le> int i \<and> int i < d \<and> in_range ds cs" by auto
      then show "\<exists>x cs. c = x # cs \<and> 0 \<le> x \<and> x < d \<and> in_range ds cs" by blast
    next
      assume "\<exists>x cs. c = x # cs \<and> 0 \<le> x \<and> x < d \<and> in_range ds cs"
      then obtain x cs where "c = x # cs" "0 \<le> x" "x < d" "in_range ds cs" by blast
      then have "nat x < nat d \<and> in_range ds cs \<and> c = int (nat x) # cs" by auto
      then show "\<exists>i<nat d. \<exists>cs. in_range ds cs \<and> c = int i # cs" by blast
    qed
    finally show "c \<in> set (all_coords (d # ds)) \<longleftrightarrow> c \<in> {c. in_range (d # ds) c}"
      by (simp add: in_range_Cons)
  qed
qed

lemma finite_in_range: "finite {c. in_range dims c}"
  unfolding set_all_coords[symmetric] by (rule finite_set)

lemma card_in_range: "\<forall>d\<in>set dims. 0 \<le> d \<Longrightarrow> card {c. in_range dims c} = nat (prod_list dims)"
proof (induction dims)
  case Nil then show ?case by simp
next
  case (Cons d ds)
  have eq: "{c. in_range (d # ds) c} = (\<lambda>(x, cs). x # cs) ` ({0..<d} \<times> {cs. in_range ds cs})"
    by (auto simp: in_range_Cons)
  have inj: "inj_on (\<lambda>(x, cs). x # cs) ({0..<d} \<times> {cs. in_range ds cs})"
    by (auto simp: inj_on_def)
  have "card {c. in_range (d # ds) c} = card ({0..<d} \<times> {cs. in_range ds cs})"
    unfolding eq by (rule card_image[OF inj])
  also have "\<dots> = nat d * nat (prod_list ds)"
    using Cons by (simp add: card_cartesian_product)
  also have "\<dots> = nat (prod_list (d # ds))"
    using Cons.prems by (simp add: nat_mult_distrib)
  finally show ?case .
qed

lemma hidden_cells_alt:
  "hidden_cells g = {c. in_range (dimensions g) c \<and> get_val (hidden g) c = Inr (Flag True)}"
  by (simp add: hidden_cells_def set_all_coords)

lemma finite_hidden_cells: "finite (hidden_cells g)"
  unfolding hidden_cells_def by simp

lemma card_hidden_cells_le:
  "\<forall>d\<in>set (dimensions g). 0 \<le> d \<Longrightarrow> card (hidden_cells g) \<le> nat (prod_list (dimensions g))"
proof -
  assume a: "\<forall>d\<in>set (dimensions g). 0 \<le> d"
  have "card (hidden_cells g) \<le> card {c. in_range (dimensions g) c}"
    by (rule card_mono[OF finite_in_range]) (auto simp: hidden_cells_alt)
  then show ?thesis using card_in_range[OF a] by simp
qed

lemma hidden_cells_state [simp]: "hidden_cells (g\<lparr>state := s\<rparr>) = hidden_cells g"
  by (simp add: hidden_cells_def)

lemma hidden_cells_squares [simp]: "hidden_cells (g\<lparr>squares_left := s\<rparr>) = hidden_cells g"
  by (simp add: hidden_cells_def)

lemma hidden_safe_state [simp]: "hidden_safe (g\<lparr>state := s\<rparr>) = hidden_safe g"
  by (simp add: hidden_safe_def)

lemma hidden_safe_squares [simp]: "hidden_safe (g\<lparr>squares_left := s\<rparr>) = hidden_safe g"
  by (simp add: hidden_safe_def)

lemma well_formed_state [simp]: "well_formed (g\<lparr>state := s\<rparr>) = well_formed g"
  by (simp add: well_formed_def)

lemma well_formed_squares [simp]: "well_formed (g\<lparr>squares_left := s\<rparr>) = well_formed g"
  by (simp add: well_formed_def)

lemma reveal:
  assumes wf: "well_formed g" and c: "in_range (dimensions g) c"
    and h: "get_val (hidden g) c = Inr (Flag True)"
  shows "\<exists>hid. set_val (hidden g) c (Flag False) = Inr hid \<and> well_formed (g\<lparr>hidden := hid\<rparr>) \<and>
           hidden_cells (g\<lparr>hidden := hid\<rparr>) = hidden_cells g - {c} \<and> c \<in> hidden_cells g"
proof -
  from wf have sh: "shaped is_flag (dimensions g) (hidden g)" and ne: "dimensions g \<noteq> []"
    by (auto simp: well_formed_def)
  from set_val_shaped[OF sh ne c, of "Flag False"] obtain hid where
    hid: "set_val (hidden g) c (Flag False) = Inr hid" "shaped is_flag (dimensions g) hid"
    "get_val hid c = Inr (Flag False)"
    "\<forall>c'. in_range (dimensions g) c' \<longrightarrow> c' \<noteq> c \<longrightarrow> get_val hid c' = get_val (hidden g) c'"
    by auto
  have "well_formed (g\<lparr>hidden := hid\<rparr>)" using wf hid(2) by (simp add: well_formed_def)
  moreover have "hidden_cells (g\<lparr>hidden := hid\<rparr>) = hidden_cells g - {c}"
    unfolding hidden_cells_alt using hid(3,4) by auto
  moreover have "c \<in> hidden_cells g" unfolding hidden_cells_alt using c h by simp
  ultimately show ?thesis using hid(1) by blast
qed

lemma hidden_safe_reveal:
  assumes "hidden_cells g' = hidden_cells g - {c}" and "c \<in> hidden_cells g" and "board g' = board g"
  shows "int (hidden_safe g') =
         int (hidden_safe g) - (if get_val (board g) c \<noteq> Inr Mine then 1 else 0)"
proof -
  let ?A = "{x \<in> hidden_cells g. get_val (board g) x \<noteq> Inr Mine}"
  have fin: "finite ?A" using finite_hidden_cells[of g] by simp
  have eq: "{x \<in> hidden_cells g'. get_val (board g') x \<noteq> Inr Mine} = ?A - {c}"
    using assms(1,3) by auto
  show ?thesis
  proof (cases "get_val (board g) c \<noteq> Inr Mine")
    case True
    then have "c \<in> ?A" using assms(2) by simp
    then have "card (?A - {c}) = card ?A - 1" "card ?A \<ge> 1"
      using fin by (auto simp: card_gt_0_iff Suc_le_eq)
    then show ?thesis using True unfolding hidden_safe_def eq by simp
  next
    case False
    then have "?A - {c} = ?A" by auto
    then show ?thesis using False unfolding hidden_safe_def eq by simp
  qed
qed

lemma settled_refl: "consistent g \<Longrightarrow> settled g g"
  by (simp add: settled_def)

lemma settled_trans: "settled g g' \<Longrightarrow> settled g' g'' \<Longrightarrow> settled g g''"
  by (auto simp: settled_def)

lemma dig_each_total:
  assumes dig: "\<And>g c. consistent g \<Longrightarrow> in_range (dimensions g) c \<Longrightarrow> card (hidden_cells g) < n \<Longrightarrow>
                  \<exists>g' k. dig g c = Some (Inr (g', k)) \<and> settled g g'"
  shows "consistent g \<Longrightarrow> card (hidden_cells g) < n \<Longrightarrow> \<forall>x\<in>set ns. in_range (dimensions g) x \<Longrightarrow>
         \<exists>g' k. dig_each dig ns g r = Some (Inr (g', k)) \<and> settled g g'"
proof (induction ns arbitrary: g r)
  case Nil then show ?case by (simp add: settled_refl)
next
  case (Cons x ns)
  from dig[OF Cons.prems(1) _ Cons.prems(2), of x] Cons.prems(3) obtain g1 k1 where
    g1: "dig g x = Some (Inr (g1, k1))" "settled g g1" by auto
  then have c1: "consistent g1" and d1: "dimensions g1 = dimensions g"
    and h1: "card (hidden_cells g1) < n" using Cons.prems(2) by (auto simp: settled_def)
  from Cons.IH[OF c1 h1, of "r + k1"] Cons.prems(3) d1 obtain g' k where
    g': "dig_each dig ns g1 (r + k1) = Some (Inr (g', k))" "settled g1 g'" by auto
  have "dig_each dig (x # ns) g r = Some (Inr (g', k))" using g1(1) g'(1) by simp
  with settled_trans[OF g1(2) g'(2)] show ?case by blast
qed

lemma dig_nd_total:
  "valid_order iter \<Longrightarrow> consistent g \<Longrightarrow> in_range (dimensions g) c \<Longrightarrow>
   card (hidden_cells g) < n \<Longrightarrow>
   \<exists>g' k. dig_nd iter n g c = Some (Inr (g', k)) \<and> settled g g'"
proof (induction n arbitrary: g c)
  case 0 then show ?case by simp
next
  case (Suc n)
  note vo = Suc.prems(1) and cons = Suc.prems(2) and cr = Suc.prems(3) and cnt = Suc.prems(4)
  from cons have wf: "well_formed g" and sq: "squares_left g = int (hidden_safe g)"
    by (auto simp: consistent_def)
  from wf have shh: "shaped is_flag (dimensions g) (hidden g)"
    and shb: "shaped is_cell (dimensions g) (board g)" and ne: "dimensions g \<noteq> []"
    by (auto simp: well_formed_def)
  from get_val_shaped[OF shh ne cr] obtain h where h: "get_val (hidden g) c = Inr h" "is_flag h"
    by auto
  from get_val_shaped[OF shb ne cr] obtain v where v: "get_val (board g) c = Inr v" "is_cell v"
    by auto
  show ?case
  proof (cases "state g = Defeat \<or> state g = Victory \<or> h = Flag False")
    case True
    then have "dig_nd iter (Suc n) g c = Some (Inr (g, 0))" using h(1) by auto
    then show ?thesis using settled_refl[OF cons] by blast
  next
    case False
    then have st: "state g \<noteq> Defeat" "state g \<noteq> Victory" and ht: "h = Flag True"
      using h(2) by (cases h; auto)+
    from reveal[OF wf cr] h(1) ht obtain hid where
      hid: "set_val (hidden g) c (Flag False) = Inr hid" "well_formed (g\<lparr>hidden := hid\<rparr>)"
      "hidden_cells (g\<lparr>hidden := hid\<rparr>) = hidden_cells g - {c}" "c \<in> hidden_cells g" by auto
    let ?g1 = "g\<lparr>hidden := hid\<rparr>"
    have card1: "card (hidden_cells ?g1) < card (hidden_cells g)"
      unfolding hid(3) by (rule card_Diff1_less[OF finite_hidden_cells hid(4)])
    have safe1: "int (hidden_safe ?g1) =
        int (hidden_safe g) - (if get_val (board g) c \<noteq> Inr Mine then 1 else 0)"
      by (rule hidden_safe_reveal[OF hid(3,4)]) simp
    show ?thesis
    proof (cases "v = Mine")
      case True
      have "dig_nd iter (Suc n) g c = Some (Inr (?g1\<lparr>state := Defeat\<rparr>, 1))"
        using st h(1) ht hid(1) v(1) True by simp
      moreover have "settled g (?g1\<lparr>state := Defeat\<rparr>)"
        using hid(2) safe1 sq v(1) True card1 by (simp add: settled_def consistent_def)
      ultimately show ?thesis by blast
    next
      case False
      let ?g2 = "?g1\<lparr>squares_left := squares_left g - 1\<rparr>"
      have cons2: "consistent ?g2"
        using hid(2) safe1 sq v(1) False by (simp add: consistent_def)
      have set2: "settled g ?g2" using cons2 card1 by (simp add: settled_def)
      show ?thesis
      proof (cases "squares_left g - 1 = 0")
        case True
        have "dig_nd iter (Suc n) g c = Some (Inr (?g2\<lparr>state := Victory\<rparr>, 1))"
          using st h(1) ht hid(1) v(1) False True by simp
        moreover have "settled g (?g2\<lparr>state := Victory\<rparr>)"
          using set2 by (simp add: settled_def consistent_def)
        ultimately show ?thesis by blast
      next
        case nz: False
        show ?thesis
        proof (cases "eq_zero v")
          case False
          have "dig_nd iter (Suc n) g c = Some (Inr (?g2, 1))"
            using st h(1) ht hid(1) v(1) \<open>v \<noteq> Mine\<close> nz False by simp
          with set2 show ?thesis by blast
        next
          case True
          let ?S = "{x. adjacent c x \<and> in_range (dimensions g) x}"
          have nb: "get_neighors_nd (dimensions g) c = Inr ?S"
            by (rule get_neighors_nd_in_range[OF ne cr])
          have "finite ?S" by (rule finite_shifted)
          with vo have "set (iter (dimensions g) c ?S) = ?S" by (auto simp: valid_order_def)
          then have inr: "\<forall>x\<in>set (iter (dimensions g) c ?S). in_range (dimensions ?g2) x" by simp
          have c2: "card (hidden_cells ?g2) < n" using card1 cnt by simp
          have "\<exists>g' k. dig_each (\<lambda>g' x. dig_nd iter n g' x) (iter (dimensions g) c ?S) ?g2 1 =
                  Some (Inr (g', k)) \<and> settled ?g2 g'"
            by (rule dig_each_total[OF Suc.IH[OF vo] cons2 c2 inr])
          then obtain g' k where
            r: "dig_each (\<lambda>g' x. dig_nd iter n g' x) (iter (dimensions g) c ?S) ?g2 1 =
                  Some (Inr (g', k))" "settled ?g2 g'" by blast
          have "dig_nd iter (Suc n) g c = Some (Inr (g', k))"
            using st h(1) ht hid(1) v(1) \<open>v \<noteq> Mine\<close> nz True nb r(1) by simp
          with settled_trans[OF set2 r(2)] show ?thesis by blast
        qed
      qed
    qed
  qed
qed

lemma dig_each_mono:
  assumes "\<And>g c r. f g c = Some r \<Longrightarrow> f' g c = Some r"
  shows "dig_each f ns g k = Some r \<Longrightarrow> dig_each f' ns g k = Some r"
proof (induction ns arbitrary: g k)
  case Nil then show ?case by simp
next
  case (Cons x ns)
  from Cons.prems obtain r1 where r1: "f g x = Some r1" by (auto split: option.splits)
  then have r1': "f' g x = Some r1" by (rule assms)
  show ?case
  proof (cases r1)
    case (Inl e) then show ?thesis using Cons.prems r1 r1' by auto
  next
    case (Inr p)
    obtain g1 k1 where "p = (g1, k1)" by (cases p)
    then show ?thesis using Cons.prems r1 r1' Inr Cons.IH[of g1 "k + k1"] by auto
  qed
qed

lemma dig_nd_mono:
  "dig_nd iter n g c = Some r \<Longrightarrow> n \<le> m \<Longrightarrow> dig_nd iter m g c = Some r"
proof (induction n arbitrary: g c r m)
  case 0 then show ?case by simp
next
  case (Suc n)
  then obtain m' where m: "m = Suc m'" "n \<le> m'" by (cases m) auto
  have E: "dig_each (\<lambda>g' x. dig_nd iter n g' x) ns g2 k = Some r \<Longrightarrow>
           dig_each (\<lambda>g' x. dig_nd iter m' g' x) ns g2 k = Some r" for ns g2 k
    by (rule dig_each_mono[of "\<lambda>g' x. dig_nd iter n g' x"]) (auto intro: Suc.IH m(2))
  show ?case using Suc.prems(1) E unfolding m(1)
    by (auto simp: Let_def split: if_splits sum.splits)
qed

lemma dig_sequence_total:
  "valid_order iter \<Longrightarrow> consistent g \<Longrightarrow> \<forall>c\<in>set cs. in_range (dimensions g) c \<Longrightarrow>
   card (hidden_cells g) < n \<Longrightarrow>
   \<exists>g'. dig_sequence iter n g cs = Some (Inr g') \<and> settled g g'"
proof (induction cs arbitrary: g)
  case Nil then show ?case by (simp add: settled_refl)
next
  case (Cons c cs)
  from dig_nd_total[OF Cons.prems(1,2) _ Cons.prems(4), of c] Cons.prems(3) obtain g1 k where
    g1: "dig_nd iter n g c = Some (Inr (g1, k))" "settled g g1" by auto
  then have c1: "consistent g1" and d1: "dimensions g1 = dimensions g"
    and h1: "card (hidden_cells g1) < n" using Cons.prems(4) by (auto simp: settled_def)
  from Cons.IH[OF Cons.prems(1) c1 _ h1] Cons.prems(3) d1 obtain g' where
    g': "dig_sequence iter n g1 cs = Some (Inr g')" "settled g1 g'" by auto
  have "dig_sequence iter n g (c # cs) = Some (Inr g')" using g1(1) g'(1) by simp
  with settled_trans[OF g1(2) g'(2)] show ?case by blast
qed

lemma dig_sequence_mono:
  "dig_sequence iter n g cs = Some r \<Longrightarrow> n \<le> m \<Longrightarrow> dig_sequence iter m g cs = Some r"
proof (induction cs arbitrary: g)
  case Nil then show ?case by simp
next
  case (Cons c cs)
  from Cons.prems(1) obtain r1 where r1: "dig_nd iter n g c = Some r1"
    by (auto split: option.splits)
  then have r1': "dig_nd iter m g c = Some r1" using Cons.prems(2) by (rule dig_nd_mono)
  show ?case
  proof (cases r1)
    case (Inl e) then show ?thesis using Cons.prems(1) r1 r1' by auto
  next
    case (Inr p)
    obtain g1 k1 where "p = (g1, k1)" by (cases p)
    then show ?thesis using Cons.prems r1 r1' Inr Cons.IH[of g1] by auto
  qed
qed

lemma new_game_consistent:
  assumes "valid_order iter" and "dims \<noteq> []" and "\<forall>d\<in>set dims. 0 \<le> d"
    and "distinct bombs" and "\<forall>b\<in>set bombs. in_range dims b"
  shows "\<exists>g. new_game_nd iter dims bombs = Inr g \<and> consistent g \<and> dimensions g = dims \<and>
           squares_left g = prod_list dims - int (length bombs)"
proof -
  from new_game_nd_ok[OF assms(1,2,3,5)] obtain g0 b where
    r: "fresh_game dims bombs g0" "new_game_nd iter dims bombs = Inr (g0\<lparr>board := b\<rparr>)"
    "shaped is_cell dims b"
    "\<forall>c. in_range dims c \<longrightarrow> get_val b c =
       Inr (if c \<in> set bombs then Mine else Num (int (length (filter (\<lambda>m. adjacent m c) bombs))))"
    by blast
  let ?g = "g0\<lparr>board := b\<rparr>"
  from r(1) have f: "dimensions g0 = dims" "squares_left g0 = prod_list dims - int (length bombs)"
    "shaped is_flag dims (hidden g0)"
    "\<And>c. in_range dims c \<Longrightarrow> get_val (hidden g0) c = Inr (Flag True)"
    by (auto simp: fresh_game_def)
  have wf: "well_formed ?g" using f(1,3) r(3) assms(2) by (simp add: well_formed_def)
  have hc: "hidden_cells ?g = {c. in_range dims c}"
    unfolding hidden_cells_alt using f(1,4) by auto
  have "{c \<in> hidden_cells ?g. get_val (board ?g) c \<noteq> Inr Mine} = {c. in_range dims c} - set bombs"
    unfolding hc using r(4) by auto
  then have "hidden_safe ?g = card ({c. in_range dims c} - set bombs)"
    by (simp add: hidden_safe_def)
  also have "\<dots> = card {c. in_range dims c} - card (set bombs)"
    by (rule card_Diff_subset) (use assms(5) in auto)
  also have "\<dots> = nat (prod_list dims) - length bombs"
    using card_in_range[OF assms(3)] distinct_card[OF assms(4)] by simp
  finally have hs: "hidden_safe ?g = nat (prod_list dims) - length bombs" .
  have "card (set bombs) \<le> card {c. in_range dims c}"
    by (rule card_mono[OF finite_in_range]) (use assms(5) in auto)
  then have le: "length bombs \<le> nat (prod_list dims)"
    using card_in_range[OF assms(3)] distinct_card[OF assms(4)] by simp
  have "0 \<le> prod_list dims" using assms(3) by (induction dims) auto
  then have "int (hidden_safe ?g) = prod_list dims - int (length bombs)"
    using hs le by simp
  then have "consistent ?g" using wf f(2) by (simp add: consistent_def)
  then show ?thesis using r(2) f(1,2) by auto
qed

text \<open>C2: for positive dimensions and distinct in-range mines, the game built by
  \<open>new_game_nd\<close> has \<open>squares_left\<close> equal to the product of the dimensions minus the
  number of mines; and after digging at any list of in-range coordinates,
  \<open>squares_left\<close> equals the number of hidden cells that hold no mine (the empty list
  gives the fresh game). Every such sequence returns: a recursion budget of one more
  than the number of cells is enough for it, no call raises, and whatever budget lets
  the sequence finish gives the same game.\<close>

theorem squares_left_counts_hidden_safe:
  assumes "valid_order iter" and "dims \<noteq> []" and "\<forall>d\<in>set dims. 0 < d"
    and "distinct bombs" and "\<forall>b\<in>set bombs. in_range dims b"
  shows "\<exists>g0. new_game_nd iter dims bombs = Inr g0 \<and>
           squares_left g0 = prod_list dims - int (length bombs) \<and>
           (\<forall>cs. (\<forall>c\<in>set cs. in_range dims c) \<longrightarrow>
              (\<exists>g. dig_sequence iter (Suc (nat (prod_list dims))) g0 cs = Some (Inr g) \<and>
                   squares_left g = int (hidden_safe g)) \<and>
              (\<forall>fuel r. dig_sequence iter fuel g0 cs = Some r \<longrightarrow>
                   (\<exists>g. r = Inr g \<and> squares_left g = int (hidden_safe g))))"
proof -
  have nn: "\<forall>d\<in>set dims. 0 \<le> d" using assms(3) by auto
  from new_game_consistent[OF assms(1,2) nn assms(4,5)] obtain g0 where
    g0: "new_game_nd iter dims bombs = Inr g0" "consistent g0" "dimensions g0 = dims"
    "squares_left g0 = prod_list dims - int (length bombs)" by blast
  let ?n = "Suc (nat (prod_list dims))"
  have small: "card (hidden_cells g0) < ?n"
    using card_hidden_cells_le[of g0] nn g0(3) by simp
  have seq: "(\<exists>g. dig_sequence iter ?n g0 cs = Some (Inr g) \<and> squares_left g = int (hidden_safe g)) \<and>
      (\<forall>fuel r. dig_sequence iter fuel g0 cs = Some r \<longrightarrow>
           (\<exists>g. r = Inr g \<and> squares_left g = int (hidden_safe g)))"
    if cs: "\<forall>c\<in>set cs. in_range dims c" for cs
  proof -
    from dig_sequence_total[OF assms(1) g0(2) _ small, of cs] cs g0(3) obtain g where
      g: "dig_sequence iter ?n g0 cs = Some (Inr g)" "settled g0 g" by auto
    then have sq: "squares_left g = int (hidden_safe g)" by (simp add: settled_def consistent_def)
    have "r = Inr g" if run: "dig_sequence iter fuel g0 cs = Some r" for fuel r
    proof -
      have "dig_sequence iter (max fuel ?n) g0 cs = Some r"
        by (rule dig_sequence_mono[OF run]) simp
      moreover have "dig_sequence iter (max fuel ?n) g0 cs = Some (Inr g)"
        by (rule dig_sequence_mono[OF g(1)]) simp
      ultimately show ?thesis by simp
    qed
    with g(1) sq show ?thesis by blast
  qed
  from g0(1,4) seq show ?thesis by blast
qed

theorem squares_left_counts_hidden_safe_witness:
  "valid_order sorted_order \<and> distinct [[0, 0], [1, 0], [1, 1 :: int]] \<and>
   in_range [2, 4] [0, 3] \<and> in_range [2, 4] [0, 1] \<and>
   (\<exists>g0. new_game_nd sorted_order [2, 4] [[0, 0], [1, 0], [1, 1]] = Inr g0 \<and>
      squares_left g0 = 5 \<and>
      (\<exists>g. dig_sequence sorted_order 9 g0 [[0, 3], [0, 1]] = Some (Inr g) \<and>
           squares_left g = int (hidden_safe g)))"
proof -
  from squares_left_counts_hidden_safe
         [of sorted_order "[2, 4]" "[[0, 0], [1, 0], [1, 1]]"] valid_sorted_order
  obtain g0 where g0: "new_game_nd sorted_order [2, 4] [[0, 0], [1, 0], [1, 1]] = Inr g0"
    "squares_left g0 = prod_list [2, 4] - int (length [[0, 0], [1, 0], [1, 1 :: int]])"
    "\<forall>cs. (\<forall>c\<in>set cs. in_range [2, 4] c) \<longrightarrow>
       (\<exists>g. dig_sequence sorted_order (Suc (nat (prod_list [2, 4]))) g0 cs = Some (Inr g) \<and>
            squares_left g = int (hidden_safe g)) \<and>
       (\<forall>fuel r. dig_sequence sorted_order fuel g0 cs = Some r \<longrightarrow>
            (\<exists>g. r = Inr g \<and> squares_left g = int (hidden_safe g)))"
    by auto
  have r: "\<forall>c\<in>set [[0, 3], [0, 1]]. in_range [2, 4] c" by simp
  have n9: "Suc (nat (prod_list [2, 4])) = 9" by simp
  have "\<exists>g. dig_sequence sorted_order (Suc (nat (prod_list [2, 4]))) g0 [[0, 3], [0, 1]] =
              Some (Inr g) \<and> squares_left g = int (hidden_safe g)"
    using g0(3) r by blast
  then have "\<exists>g. dig_sequence sorted_order 9 g0 [[0, 3], [0, 1]] = Some (Inr g) \<and>
            squares_left g = int (hidden_safe g)"
    unfolding n9 .
  moreover have "squares_left g0 = 5" using g0(2) by simp
  ultimately show ?thesis using g0(1) valid_sorted_order by auto
qed

section \<open>Rendering\<close>

lemma digit_char_not_underscore: "m < 10 \<Longrightarrow> digit_char m \<noteq> CHR ''_''"
proof -
  assume "m < 10"
  then have "digit_char m \<in> set ''0123456789''" unfolding digit_char_def by (intro nth_mem) simp
  then show ?thesis by auto
qed

lemma str_nat_last: "str_nat n \<noteq> [] \<and> last (str_nat n) = digit_char (n mod 10)"
  by (subst (1 2) str_nat.simps) simp

lemma str_int_not_underscore: "str_int k \<noteq> ''_''"
proof (cases "k < 0")
  case True then show ?thesis by (simp add: str_int_def)
next
  case False
  have "last (str_int k) \<noteq> CHR ''_''"
    using False str_nat_last[of "nat k"] digit_char_not_underscore[of "nat k mod 10"]
    by (simp add: str_int_def)
  then show ?thesis by auto
qed

lemma symbol_of_not_underscore: "is_cell v \<Longrightarrow> symbol_of v \<noteq> ''_''"
  using str_int_not_underscore by (cases v) auto

lemma cell_symbol_ok:
  assumes "is_cell bv" and "get_val b [int i] = Inr bv" and "get_val h [int i] = Inr (Flag hv)"
  shows "cell_symbol b h xray i = Inr (Sym (if hv \<and> \<not> xray then ''_'' else symbol_of bv))"
  using assms by (cases bv) (auto simp: cell_symbol_def)

lemma render_grid_ok:
  "shaped is_cell (d # ds) b \<Longrightarrow> shaped is_flag (d # ds) h \<Longrightarrow>
   \<exists>r. render_grid (d # ds) b h xray = Inr r \<and> same_shape (d # ds) r \<and>
     (\<forall>c. in_range (d # ds) c \<longrightarrow>
        (\<exists>hv bv. get_val h c = Inr (Flag hv) \<and> get_val b c = Inr bv \<and> is_cell bv \<and>
           sym_at r c = Some (if hv \<and> \<not> xray then ''_'' else symbol_of bv)))"
proof (induction ds arbitrary: d b h)
  case Nil
  from Nil(1) obtain bs where b: "b = Rows bs" "int (length bs) = d" "\<forall>x\<in>set bs. is_cell x"
    by (auto simp: shaped_Cons)
  from Nil(2) obtain hs where h: "h = Rows hs" "int (length hs) = d" "\<forall>x\<in>set hs. is_flag x"
    by (auto simp: shaped_Cons)
  define F where "F i = (case hs ! i of Flag hv \<Rightarrow> hv | _ \<Rightarrow> False)" for i
  have cell: "is_cell (bs ! i) \<and> get_val b [int i] = Inr (bs ! i) \<and>
      get_val h [int i] = Inr (Flag (F i))" if "i < nat d" for i
  proof -
    have "is_flag (hs ! i)" using h that by auto
    then have "hs ! i = Flag (F i)" unfolding F_def by (cases "hs ! i") auto
    then show ?thesis using b h that by auto
  qed
  let ?G = "\<lambda>i. Sym (if F i \<and> \<not> xray then ''_'' else symbol_of (bs ! i))"
  have "\<forall>i\<in>set [0..<nat d]. cell_symbol b h xray i = Inr (?G i)"
    using cell cell_symbol_ok by auto
  from collect_ok[OF this] have r: "render_grid [d] b h xray = Inr (Block (map ?G [0..<nat d]))"
    by simp
  have d0: "0 \<le> d" using b(2) by auto
  have sh: "same_shape [d] (Block (map ?G [0..<nat d]))" using d0 by auto
  have at: "\<exists>hv bv. get_val h c = Inr (Flag hv) \<and> get_val b c = Inr bv \<and> is_cell bv \<and>
      sym_at (Block (map ?G [0..<nat d])) c = Some (if hv \<and> \<not> xray then ''_'' else symbol_of bv)"
    if "in_range [d] c" for c
  proof -
    from that obtain x where x: "c = [x]" "0 \<le> x" "x < d" by (auto simp: in_range_single)
    then have nx: "nat x < nat d" by auto
    from cell[OF nx] x nx show ?thesis by auto
  qed
  from r sh at show ?case by blast
next
  case (Cons d' ds)
  from Cons.prems(1) obtain bs where b: "b = Rows bs" "int (length bs) = d"
    "\<forall>x\<in>set bs. shaped is_cell (d' # ds) x" by (auto simp: shaped_Cons)
  from Cons.prems(2) obtain hs where h: "h = Rows hs" "int (length hs) = d"
    "\<forall>x\<in>set hs. shaped is_flag (d' # ds) x" by (auto simp: shaped_Cons)
  define G where "G i = projr (render_grid (d' # ds) (bs ! i) (hs ! i) xray)" for i
  have G: "render_grid (d' # ds) (bs ! i) (hs ! i) xray = Inr (G i) \<and> same_shape (d' # ds) (G i) \<and>
     (\<forall>c. in_range (d' # ds) c \<longrightarrow>
        (\<exists>hv bv. get_val (hs ! i) c = Inr (Flag hv) \<and> get_val (bs ! i) c = Inr bv \<and> is_cell bv \<and>
           sym_at (G i) c = Some (if hv \<and> \<not> xray then ''_'' else symbol_of bv)))"
    if "i < nat d" for i
  proof -
    have "shaped is_cell (d' # ds) (bs ! i)" "shaped is_flag (d' # ds) (hs ! i)"
      using b h that by auto
    from Cons.IH[OF this] obtain r where
      r: "render_grid (d' # ds) (bs ! i) (hs ! i) xray = Inr r \<and> same_shape (d' # ds) r \<and>
       (\<forall>c. in_range (d' # ds) c \<longrightarrow>
        (\<exists>hv bv. get_val (hs ! i) c = Inr (Flag hv) \<and> get_val (bs ! i) c = Inr bv \<and> is_cell bv \<and>
           sym_at r c = Some (if hv \<and> \<not> xray then ''_'' else symbol_of bv)))" by blast
    then have "G i = r" by (simp add: G_def)
    with r show ?thesis by simp
  qed
  let ?f = "\<lambda>index. case getitem b (int index) of Inl e \<Rightarrow> Inl e
                      | Inr bi \<Rightarrow> (case getitem h (int index) of Inl e \<Rightarrow> Inl e
                                   | Inr hi \<Rightarrow> render_grid (d' # ds) bi hi xray)"
  have "\<forall>i\<in>set [0..<nat d]. ?f i = Inr (G i)" using G b(1,2) h(1,2) by auto
  from collect_ok[OF this] have r: "render_grid (d # d' # ds) b h xray = Inr (Block (map G [0..<nat d]))"
    by simp
  have d0: "0 \<le> d" using b(2) by auto
  have sh: "same_shape (d # d' # ds) (Block (map G [0..<nat d]))" using d0 G by auto
  have at: "\<exists>hv bv. get_val h c = Inr (Flag hv) \<and> get_val b c = Inr bv \<and> is_cell bv \<and>
      sym_at (Block (map G [0..<nat d])) c = Some (if hv \<and> \<not> xray then ''_'' else symbol_of bv)"
    if "in_range (d # d' # ds) c" for c
  proof -
    from that obtain x cs where c: "c = x # cs" "0 \<le> x" "x < d" "in_range (d' # ds) cs"
      by (auto simp: in_range_Cons)
    then have csne: "cs \<noteq> []" by (auto simp: in_range_Cons)
    have nx: "nat x < nat d" using c by auto
    from G[OF nx] c(4) obtain hv bv where
      "get_val (hs ! nat x) cs = Inr (Flag hv)" "get_val (bs ! nat x) cs = Inr bv" "is_cell bv"
      "sym_at (G (nat x)) cs = Some (if hv \<and> \<not> xray then ''_'' else symbol_of bv)" by blast
    then show ?thesis using c csne nx b(1,2) h(1,2) by (simp add: get_val_Cons)
  qed
  from r sh at show ?case by blast
qed

lemma str_int_examples: "str_int 3 = ''3'' \<and> str_int 12 = ''12'' \<and> str_int (-7) = ''-7''"
  by (simp add: str_int_def str_nat.simps digit_char_def)

text \<open>C10: for every well-shaped game and either value of \<open>xray\<close>, \<open>render_nd\<close> returns
  a grid of the shape of the board. At every coordinate the symbol is \<open>_\<close> when the cell
  is hidden and \<open>xray\<close> is off, and otherwise the symbol of the cell: \<open>.\<close> for a mine, one
  space for the count 0, the decimal numeral of any other count. No cell symbol is
  \<open>_\<close>, so \<open>_\<close> appears exactly at the hidden cells without \<open>xray\<close> and never with it.\<close>

theorem render_nd_symbols:
  assumes "well_formed g"
  shows "\<exists>r. render_nd g xray = Inr r \<and> same_shape (dimensions g) r \<and>
     (\<forall>c. in_range (dimensions g) c \<longrightarrow>
        (\<exists>hv bv. get_val (hidden g) c = Inr (Flag hv) \<and> get_val (board g) c = Inr bv \<and>
           sym_at r c = Some (if hv \<and> \<not> xray then ''_'' else symbol_of bv) \<and>
           (sym_at r c = Some ''_'' \<longleftrightarrow> hv \<and> \<not> xray)))"
proof -
  from assms obtain d ds where d: "dimensions g = d # ds" "shaped is_cell (d # ds) (board g)"
    "shaped is_flag (d # ds) (hidden g)" by (cases "dimensions g") (auto simp: well_formed_def)
  from render_grid_ok[OF d(2,3), of xray] obtain r where
    r: "render_grid (d # ds) (board g) (hidden g) xray = Inr r" "same_shape (d # ds) r"
    "\<forall>c. in_range (d # ds) c \<longrightarrow>
        (\<exists>hv bv. get_val (hidden g) c = Inr (Flag hv) \<and> get_val (board g) c = Inr bv \<and> is_cell bv \<and>
           sym_at r c = Some (if hv \<and> \<not> xray then ''_'' else symbol_of bv))" by blast
  have "\<exists>hv bv. get_val (hidden g) c = Inr (Flag hv) \<and> get_val (board g) c = Inr bv \<and>
           sym_at r c = Some (if hv \<and> \<not> xray then ''_'' else symbol_of bv) \<and>
           (sym_at r c = Some ''_'' \<longleftrightarrow> hv \<and> \<not> xray)" if "in_range (d # ds) c" for c
  proof -
    from r(3) that obtain hv bv where
      x: "get_val (hidden g) c = Inr (Flag hv)" "get_val (board g) c = Inr bv" "is_cell bv"
      "sym_at r c = Some (if hv \<and> \<not> xray then ''_'' else symbol_of bv)" by blast
    have "sym_at r c = Some ''_'' \<longleftrightarrow> hv \<and> \<not> xray"
      using x(4) symbol_of_not_underscore[OF x(3)] by auto
    with x show ?thesis by blast
  qed
  with r(1,2) d(1) show ?thesis by (auto simp: render_nd_def)
qed

theorem render_nd_symbols_witness:
  "well_formed doc_game \<and>
   render_nd doc_game False =
     Inr (Block [Block [Sym ''_'', Sym ''3'', Sym ''1'', Sym ''_''],
                 Block [Sym ''_'', Sym ''_'', Sym ''1'', Sym ''_'']]) \<and>
   render_nd doc_game True =
     Inr (Block [Block [Sym ''.'', Sym ''3'', Sym ''1'', Sym '' ''],
                 Block [Sym ''.'', Sym ''.'', Sym ''1'', Sym '' '']]) \<and>
   (\<exists>r. render_nd doc_game False = Inr r \<and> same_shape [2, 4] r \<and>
        sym_at r [0, 1] = Some (symbol_of (Num 3)) \<and> sym_at r [0, 0] = Some ''_'')"
proof -
  have wf: "well_formed doc_game" by (simp add: doc_game_def well_formed_def)
  have e: "render_nd doc_game False =
     Inr (Block [Block [Sym ''_'', Sym ''3'', Sym ''1'', Sym ''_''],
                 Block [Sym ''_'', Sym ''_'', Sym ''1'', Sym ''_'']])"
    "render_nd doc_game True =
     Inr (Block [Block [Sym ''.'', Sym ''3'', Sym ''1'', Sym '' ''],
                 Block [Sym ''.'', Sym ''.'', Sym ''1'', Sym '' '']])"
    by code_simp+
  from render_nd_symbols [OF wf, of False] obtain r where
    r: "render_nd doc_game False = Inr r" "same_shape (dimensions doc_game) r"
    "\<forall>c. in_range (dimensions doc_game) c \<longrightarrow>
        (\<exists>hv bv. get_val (hidden doc_game) c = Inr (Flag hv) \<and> get_val (board doc_game) c = Inr bv \<and>
           sym_at r c = Some (if hv \<and> \<not> False then ''_'' else symbol_of bv) \<and>
           (sym_at r c = Some ''_'' \<longleftrightarrow> hv \<and> \<not> False))" by blast
  have a: "sym_at r [0, 1] = Some (symbol_of (Num 3))"
  proof -
    have "in_range (dimensions doc_game) [0, 1]" by (simp add: doc_game_def)
    with r(3) obtain hv bv where x: "get_val (hidden doc_game) [0, 1] = Inr (Flag hv)"
      "get_val (board doc_game) [0, 1] = Inr bv"
      "sym_at r [0, 1] = Some (if hv \<and> \<not> False then ''_'' else symbol_of bv)" by blast
    from x(1,2) have "hv = False" "bv = Num 3" by (simp_all add: doc_game_def)
    with x(3) show ?thesis by simp
  qed
  have b: "sym_at r [0, 0] = Some ''_''"
  proof -
    have "in_range (dimensions doc_game) [0, 0]" by (simp add: doc_game_def)
    with r(3) obtain hv bv where x: "get_val (hidden doc_game) [0, 0] = Inr (Flag hv)"
      "sym_at r [0, 0] = Some (if hv \<and> \<not> False then ''_'' else symbol_of bv)" by blast
    from x(1) have "hv = True" by (simp add: doc_game_def)
    with x(2) show ?thesis by simp
  qed
  from r(2) have "same_shape [2, 4] r" by (simp add: doc_game_def)
  with wf e r(1) a b show ?thesis by blast
qed

section \<open>The end-to-end scenario\<close>

text \<open>The cascade is followed for every order of visiting the neighbours, so the
  equation of \<open>dig_nd\<close> is unfolded by hand from here on.\<close>

declare dig_nd.simps [simp del]

lemma corner_neighbors:
  "get_neighors_nd [2, 4] [0, 3] = Inr corner" "get_neighors_nd [2, 4] [1, 3] = Inr corner"
  by (auto simp: get_neighors_nd_def axis0_def corner_def)

lemma cascade_loop:
  assumes step: "\<And>a c d x. x \<in> corner \<Longrightarrow> (d \<longrightarrow> dmax) \<Longrightarrow>
      \<exists>a' c' d'. f (cascade_game a c d) x =
          Some (Inr (cascade_game a' c' d', still_hidden a c d - still_hidden a' c' d')) \<and>
        (a' \<longrightarrow> a) \<and> (c' \<longrightarrow> c) \<and> (d' \<longrightarrow> d) \<and>
        (x = [0, 2] \<longrightarrow> \<not> a') \<and> (x = [1, 2] \<longrightarrow> \<not> c') \<and> (x = [1, 3] \<longrightarrow> \<not> d')"
  shows "set ns \<subseteq> corner \<Longrightarrow> (d \<longrightarrow> dmax) \<Longrightarrow>
     \<exists>a' c' d'. dig_each f ns (cascade_game a c d) r =
          Some (Inr (cascade_game a' c' d', r + still_hidden a c d - still_hidden a' c' d')) \<and>
        (a' \<longrightarrow> a \<and> [0, 2] \<notin> set ns) \<and> (c' \<longrightarrow> c \<and> [1, 2] \<notin> set ns) \<and>
        (d' \<longrightarrow> d \<and> [1, 3] \<notin> set ns)"
proof (induction ns arbitrary: a c d r)
  case Nil then show ?case by auto
next
  case (Cons x ns)
  from step[where x = x and a = a and c = c and d = d] Cons.prems obtain a1 c1 d1 where
    s: "f (cascade_game a c d) x =
          Some (Inr (cascade_game a1 c1 d1, still_hidden a c d - still_hidden a1 c1 d1))"
       "a1 \<longrightarrow> a" "c1 \<longrightarrow> c" "d1 \<longrightarrow> d"
       "x = [0, 2] \<longrightarrow> \<not> a1" "x = [1, 2] \<longrightarrow> \<not> c1" "x = [1, 3] \<longrightarrow> \<not> d1" by auto
  have "d1 \<longrightarrow> dmax" using s(4) Cons.prems(2) by simp
  from Cons.IH[where d = d1 and a = a1 and c = c1 and
      r = "r + (still_hidden a c d - still_hidden a1 c1 d1)", OF _ this] Cons.prems(1)
  obtain a' c' d' where
    t: "dig_each f ns (cascade_game a1 c1 d1) (r + (still_hidden a c d - still_hidden a1 c1 d1)) =
          Some (Inr (cascade_game a' c' d',
            r + (still_hidden a c d - still_hidden a1 c1 d1) + still_hidden a1 c1 d1 -
              still_hidden a' c' d'))"
       "a' \<longrightarrow> a1 \<and> [0, 2] \<notin> set ns" "c' \<longrightarrow> c1 \<and> [1, 2] \<notin> set ns"
       "d' \<longrightarrow> d1 \<and> [1, 3] \<notin> set ns" by auto
  have "dig_each f (x # ns) (cascade_game a c d) r =
          Some (Inr (cascade_game a' c' d', r + still_hidden a c d - still_hidden a' c' d'))"
    using s(1) t(1) by simp
  moreover have "a' \<longrightarrow> a \<and> [0, 2] \<notin> set (x # ns)" using s(2,5) t(2) by auto
  moreover have "c' \<longrightarrow> c \<and> [1, 2] \<notin> set (x # ns)" using s(3,6) t(3) by auto
  moreover have "d' \<longrightarrow> d \<and> [1, 3] \<notin> set (x # ns)" using s(4,7) t(4) by auto
  ultimately show ?case by blast
qed

lemma cascade_all:
  assumes step: "\<And>a c d x. x \<in> corner \<Longrightarrow> (d \<longrightarrow> dmax) \<Longrightarrow>
      \<exists>a' c' d'. f (cascade_game a c d) x =
          Some (Inr (cascade_game a' c' d', still_hidden a c d - still_hidden a' c' d')) \<and>
        (a' \<longrightarrow> a) \<and> (c' \<longrightarrow> c) \<and> (d' \<longrightarrow> d) \<and>
        (x = [0, 2] \<longrightarrow> \<not> a') \<and> (x = [1, 2] \<longrightarrow> \<not> c') \<and> (x = [1, 3] \<longrightarrow> \<not> d')"
    and "set ns = corner" and "d \<longrightarrow> dmax"
  shows "dig_each f ns (cascade_game a c d) r =
          Some (Inr (cascade_game False False False, r + still_hidden a c d))"
proof -
  from cascade_loop[where dmax = dmax and f = f and ns = ns and d = d and a = a and c = c
      and r = r, OF step _ assms(3)] assms(2) obtain a' c' d' where
    t: "dig_each f ns (cascade_game a c d) r =
          Some (Inr (cascade_game a' c' d', r + still_hidden a c d - still_hidden a' c' d'))"
       "a' \<longrightarrow> a \<and> [0, 2] \<notin> set ns" "c' \<longrightarrow> c \<and> [1, 2] \<notin> set ns"
       "d' \<longrightarrow> d \<and> [1, 3] \<notin> set ns" by auto
  from t(2,3,4) assms(2) have "\<not> a'" "\<not> c'" "\<not> d'" by (auto simp: corner_def)
  with t(1) show ?thesis by (simp add: still_hidden_def)
qed

lemma dig_no_cascade:
  assumes "x \<in> corner" and "x = [1, 3] \<longrightarrow> \<not> d"
  shows "dig_nd iter (Suc m) (cascade_game a c d) x =
     Some (Inr (cascade_game (a \<and> x \<noteq> [0, 2]) (c \<and> x \<noteq> [1, 2]) d,
       still_hidden a c d - still_hidden (a \<and> x \<noteq> [0, 2]) (c \<and> x \<noteq> [1, 2]) d))"
proof -
  from assms(1) consider "x = [0, 2]" | "x = [0, 3]" | "x = [1, 2]" | "x = [1, 3]"
    by (auto simp: corner_def)
  then show ?thesis
  proof cases
    case 1 then show ?thesis
      by (cases a; cases c; cases d)
         (simp_all add: dig_nd.simps cascade_game_def scenario_board_def still_hidden_def)
  next
    case 2 then show ?thesis
      by (simp add: dig_nd.simps cascade_game_def scenario_board_def still_hidden_def)
  next
    case 3 then show ?thesis
      by (cases a; cases c; cases d)
         (simp_all add: dig_nd.simps cascade_game_def scenario_board_def still_hidden_def)
  next
    case 4 then show ?thesis using assms(2)
      by (simp add: dig_nd.simps cascade_game_def scenario_board_def still_hidden_def)
  qed
qed

lemma dig_inner:
  assumes "x \<in> corner" and "d \<longrightarrow> False"
  shows "\<exists>a' c' d'. dig_nd iter (Suc m) (cascade_game a c d) x =
          Some (Inr (cascade_game a' c' d', still_hidden a c d - still_hidden a' c' d')) \<and>
        (a' \<longrightarrow> a) \<and> (c' \<longrightarrow> c) \<and> (d' \<longrightarrow> d) \<and>
        (x = [0, 2] \<longrightarrow> \<not> a') \<and> (x = [1, 2] \<longrightarrow> \<not> c') \<and> (x = [1, 3] \<longrightarrow> \<not> d')"
  using dig_no_cascade[where d = d and iter = iter and m = m and a = a and c = c, OF assms(1)]
    assms(2) by auto

lemma dig_nd_cascade_step:
  assumes "state g = Ongoing" and "get_val (hidden g) c = Inr (Flag True)"
    and "set_val (hidden g) c (Flag False) = Inr hid" and "get_val (board g) c = Inr (Num 0)"
    and "squares_left g \<noteq> 1" and "get_neighors_nd (dimensions g) c = Inr S"
  shows "dig_nd iter (Suc n) g c =
     dig_each (\<lambda>g' x. dig_nd iter n g' x) (iter (dimensions g) c S)
       (g\<lparr>hidden := hid, squares_left := squares_left g - 1\<rparr>) 1"
  using assms by (simp add: dig_nd.simps)

lemma dig_bottom_right:
  assumes "valid_order iter"
  shows "dig_nd iter (Suc (Suc m)) (cascade_game a c True) [1, 3] =
     Some (Inr (cascade_game False False False, still_hidden a c True))"
proof -
  have fin: "finite corner" by (simp add: corner_def)
  with assms have it: "set (iter [2, 4] [1, 3] corner) = corner" by (simp add: valid_order_def)
  have loop: "dig_each (\<lambda>g' x. dig_nd iter (Suc m) g' x) (iter [2, 4] [1, 3] corner)
       (cascade_game a c False) 1 =
     Some (Inr (cascade_game False False False, 1 + still_hidden a c False))"
    by (rule cascade_all[where dmax = False, OF dig_inner it]) simp_all
  have sv: "set_val (hidden (cascade_game a c True)) [1, 3] (Flag False) =
      Inr (hidden (cascade_game a c False))"
    by (simp add: cascade_game_def)
  have eq: "cascade_game a c True\<lparr>hidden := hidden (cascade_game a c False),
        squares_left := squares_left (cascade_game a c True) - 1\<rparr> = cascade_game a c False"
    by (simp add: cascade_game_def still_hidden_def)
  have gh: "state (cascade_game a c True) = Ongoing"
    "get_val (hidden (cascade_game a c True)) [1, 3] = Inr (Flag True)"
    "get_val (board (cascade_game a c True)) [1, 3] = Inr (Num 0)"
    "squares_left (cascade_game a c True) \<noteq> 1"
    by (simp_all add: cascade_game_def scenario_board_def still_hidden_def)
  have dm: "dimensions (cascade_game a c True) = [2, 4]" by (simp add: cascade_game_def)
  have nb: "get_neighors_nd (dimensions (cascade_game a c True)) [1, 3] = Inr corner"
    unfolding dm by (rule corner_neighbors)
  have sh: "still_hidden a c True = 1 + still_hidden a c False" by (simp add: still_hidden_def)
  have "dig_nd iter (Suc (Suc m)) (cascade_game a c True) [1, 3] =
      dig_each (\<lambda>g' x. dig_nd iter (Suc m) g' x)
        (iter (dimensions (cascade_game a c True)) [1, 3] corner)
        (cascade_game a c True\<lparr>hidden := hidden (cascade_game a c False),
           squares_left := squares_left (cascade_game a c True) - 1\<rparr>) 1"
    by (rule dig_nd_cascade_step[OF gh(1,2) sv gh(3,4) nb])
  also have "\<dots> = Some (Inr (cascade_game False False False, 1 + still_hidden a c False))"
    unfolding eq dm by (rule loop)
  finally show ?thesis unfolding sh .
qed

lemma dig_outer:
  assumes "valid_order iter" and "x \<in> corner"
  shows "\<exists>a' c' d'. dig_nd iter (Suc (Suc m)) (cascade_game a c d) x =
          Some (Inr (cascade_game a' c' d', still_hidden a c d - still_hidden a' c' d')) \<and>
        (a' \<longrightarrow> a) \<and> (c' \<longrightarrow> c) \<and> (d' \<longrightarrow> d) \<and>
        (x = [0, 2] \<longrightarrow> \<not> a') \<and> (x = [1, 2] \<longrightarrow> \<not> c') \<and> (x = [1, 3] \<longrightarrow> \<not> d')"
proof (cases "x = [1, 3] \<and> d")
  case True
  have "still_hidden False False False = 0" by (simp add: still_hidden_def)
  then show ?thesis
    using dig_bottom_right[where m = m and a = a and c = c, OF assms(1)] True
    by (intro exI[of _ False]) simp
next
  case False
  then have nd: "x = [1, 3] \<longrightarrow> \<not> d" by simp
  let ?a = "a \<and> x \<noteq> [0, 2]" and ?c = "c \<and> x \<noteq> [1, 2]"
  have "dig_nd iter (Suc (Suc m)) (cascade_game a c d) x =
          Some (Inr (cascade_game ?a ?c d, still_hidden a c d - still_hidden ?a ?c d)) \<and>
        (?a \<longrightarrow> a) \<and> (?c \<longrightarrow> c) \<and> (d \<longrightarrow> d) \<and>
        (x = [0, 2] \<longrightarrow> \<not> ?a) \<and> (x = [1, 2] \<longrightarrow> \<not> ?c) \<and> (x = [1, 3] \<longrightarrow> \<not> d)"
    using dig_no_cascade[where iter = iter and m = "Suc m" and a = a and c = c, OF assms(2) nd] nd
    by simp
  then show ?thesis by blast
qed

lemma dig_scenario:
  assumes "valid_order iter"
  shows "dig_nd iter (Suc (Suc (Suc m))) scenario_game [0, 3] =
     Some (Inr (cascade_game False False False, 4))"
proof -
  have fin: "finite corner" by (simp add: corner_def)
  with assms have it: "set (iter [2, 4] [0, 3] corner) = corner" by (simp add: valid_order_def)
  have loop: "dig_each (\<lambda>g' x. dig_nd iter (Suc (Suc m)) g' x) (iter [2, 4] [0, 3] corner)
       (cascade_game True True True) 1 =
     Some (Inr (cascade_game False False False, 1 + still_hidden True True True))"
    by (rule cascade_all[where dmax = True, OF dig_outer[OF assms] it]) simp_all
  have sv: "set_val (hidden scenario_game) [0, 3] (Flag False) =
      Inr (hidden (cascade_game True True True))"
    by (simp add: cascade_game_def scenario_game_def)
  have eq: "scenario_game\<lparr>hidden := hidden (cascade_game True True True),
        squares_left := squares_left scenario_game - 1\<rparr> = cascade_game True True True"
    by (simp add: cascade_game_def scenario_game_def still_hidden_def)
  have gh: "state scenario_game = Ongoing"
    "get_val (hidden scenario_game) [0, 3] = Inr (Flag True)"
    "get_val (board scenario_game) [0, 3] = Inr (Num 0)"
    "squares_left scenario_game \<noteq> 1"
    by (simp_all add: scenario_game_def scenario_board_def)
  have dm: "dimensions scenario_game = [2, 4]" by (simp add: scenario_game_def)
  have nb: "get_neighors_nd (dimensions scenario_game) [0, 3] = Inr corner"
    unfolding dm by (rule corner_neighbors)
  have sh: "1 + still_hidden True True True = 4" by (simp add: still_hidden_def)
  have "dig_nd iter (Suc (Suc (Suc m))) scenario_game [0, 3] =
      dig_each (\<lambda>g' x. dig_nd iter (Suc (Suc m)) g' x)
        (iter (dimensions scenario_game) [0, 3] corner)
        (scenario_game\<lparr>hidden := hidden (cascade_game True True True),
           squares_left := squares_left scenario_game - 1\<rparr>) 1"
    by (rule dig_nd_cascade_step[OF gh(1,2) sv gh(3,4) nb])
  also have "\<dots> = Some (Inr (cascade_game False False False, 1 + still_hidden True True True))"
    unfolding eq dm by (rule loop)
  finally show ?thesis unfolding sh .
qed

lemma shaped_ext:
  "shaped leaf dims b \<Longrightarrow> shaped leaf' dims b' \<Longrightarrow> dims \<noteq> [] \<Longrightarrow>
   (\<And>c. in_range dims c \<Longrightarrow> get_val b c = get_val b' c) \<Longrightarrow> b = b'"
proof (induction dims arbitrary: b b')
  case Nil then show ?case by simp
next
  case (Cons d ds)
  from Cons.prems(1) obtain xs where b: "b = Rows xs" "int (length xs) = d"
    "\<forall>x\<in>set xs. shaped leaf ds x" by (auto simp: shaped_Cons)
  from Cons.prems(2) obtain ys where b': "b' = Rows ys" "int (length ys) = d"
    "\<forall>x\<in>set ys. shaped leaf' ds x" by (auto simp: shaped_Cons)
  have len: "length xs = length ys" using b(2) b'(2) by simp
  have "xs ! i = ys ! i" if i: "i < length xs" for i
  proof (cases ds)
    case Nil
    have "in_range (d # ds) [int i]" using i b(2) Nil by auto
    from Cons.prems(4)[OF this] show ?thesis using i len b(1) b'(1) by simp
  next
    case (Cons d' ds')
    have sx: "shaped leaf ds (xs ! i)" and sy: "shaped leaf' ds (ys ! i)"
      using b(3) b'(3) i len by auto
    have "get_val (xs ! i) cs = get_val (ys ! i) cs" if cs: "in_range ds cs" for cs
    proof -
      have ne: "cs \<noteq> []" using cs Cons by (auto simp: in_range_Cons)
      have "in_range (d # ds) (int i # cs)" using i b(2) cs by auto
      from Cons.prems(4)[OF this] show ?thesis using i len b(1) b'(1) ne
        by (simp add: get_val_Cons)
    qed
    from Cons.IH[OF sx sy _ this] Cons show ?thesis by simp
  qed
  then have "xs = ys" using len by (auto intro: nth_equalityI)
  then show ?case using b(1) b'(1) by simp
qed

lemma scenario_coords:
  assumes "in_range [2, 4] c"
  shows "c \<in> {[0, 0], [0, 1], [0, 2], [0, 3], [1, 0], [1, 1], [1, 2], [1, 3]}"
proof -
  have "all_coords [2, 4] = [[0, 0], [0, 1], [0, 2], [0, 3], [1, 0], [1, 1], [1, 2], [1, 3]]"
    by code_simp
  moreover have "c \<in> set (all_coords [2, 4])" unfolding set_all_coords using assms by blast
  ultimately show ?thesis by simp
qed

lemma new_game_scenario:
  assumes "valid_order iter"
  shows "new_game_nd iter [2, 4] [[0, 0], [1, 0], [1, 1]] = Inr scenario_game"
proof -
  let ?bombs = "[[0, 0], [1, 0], [1, 1 :: int]]"
  from new_game_nd_ok[OF assms, of "[2, 4]" ?bombs] obtain g0 b where
    r: "fresh_game [2, 4] ?bombs g0" "new_game_nd iter [2, 4] ?bombs = Inr (g0\<lparr>board := b\<rparr>)"
    "shaped is_cell [2, 4] b"
    "\<forall>c. in_range [2, 4] c \<longrightarrow> get_val b c =
       Inr (if c \<in> set ?bombs then Mine
            else Num (int (length (filter (\<lambda>m. adjacent m c) ?bombs))))"
    by auto
  from r(1) have f: "dimensions g0 = [2, 4]" "state g0 = Ongoing" "squares_left g0 = 5"
    "shaped is_flag [2, 4] (hidden g0)"
    "\<And>c. in_range [2, 4] c \<Longrightarrow> get_val (hidden g0) c = Inr (Flag True)"
    by (auto simp: fresh_game_def)
  have "get_val b c = get_val scenario_board c" if "in_range [2, 4] c" for c
    using scenario_coords[OF that] r(4)[rule_format, OF that]
    by (auto simp: adjacent_def scenario_board_def)
  then have b: "b = scenario_board"
    by (intro shaped_ext[OF r(3), of is_cell]) (simp_all add: scenario_board_def)
  have "get_val (hidden g0) c = get_val (hidden scenario_game) c" if "in_range [2, 4] c" for c
    using scenario_coords[OF that] f(5)[OF that] by (auto simp: scenario_game_def)
  then have h: "hidden g0 = hidden scenario_game"
    by (intro shaped_ext[OF f(4), of is_flag]) (simp_all add: scenario_game_def)
  have "g0\<lparr>board := b\<rparr> = scenario_game"
    using f(1,2,3) b h by (cases g0) (simp add: scenario_game_def)
  with r(2) show ?thesis by simp
qed

text \<open>C4, as the code has it: for every order of visiting the neighbours, the fresh game
  \<^verbatim>\<open>new_game((2,4), [(0,0),(1,0),(1,1)])\<close> is the one the specification shows (the board
  \<^verbatim>\<open>[['.',3,1,0],['.','.',1,0]]\<close>, every cell hidden, 5 squares left, ongoing), and
  \<^verbatim>\<open>dig((0,3))\<close> on it returns 4 with any recursion budget of 3 or more. It reveals
  \<open>(0,2)\<close>, \<open>(0,3)\<close>, \<open>(1,2)\<close> and \<open>(1,3)\<close>; the cell \<open>(0,1)\<close>, which holds 3, stays
  hidden, so the state stays ongoing and \<open>squares_left\<close> is 1.\<close>

theorem dig_fresh_scenario:
  assumes "valid_order iter"
  shows "new_game_nd iter [2, 4] [[0, 0], [1, 0], [1, 1]] = Inr scenario_game \<and>
         dig_nd iter (Suc (Suc (Suc fuel))) scenario_game [0, 3] = Some (Inr (scenario_after, 4)) \<and>
         state scenario_after = Ongoing \<and> squares_left scenario_after = 1"
proof -
  have "cascade_game False False False = scenario_after"
    by (simp add: cascade_game_def scenario_after_def still_hidden_def)
  then show ?thesis
    using new_game_scenario[OF assms] dig_scenario[OF assms, where m = fuel]
    by (simp add: scenario_after_def)
qed

theorem dig_fresh_scenario_witness:
  "valid_order sorted_order \<and>
   new_game_nd sorted_order [2, 4] [[0, 0], [1, 0], [1, 1]] = Inr scenario_game \<and>
   dig_nd sorted_order 3 scenario_game [0, 3] = Some (Inr (scenario_after, 4))"
  using dig_fresh_scenario [of sorted_order 0] valid_sorted_order
  by (simp add: numeral_3_eq_3)

text \<open>C4 as stated fails: after the dig the game is not won and one safe square is
  left.\<close>

theorem dig_fresh_scenario_not_victory:
  "new_game_nd sorted_order [2, 4] [[0, 0], [1, 0], [1, 1]] = Inr scenario_game \<and>
   dig_nd sorted_order 3 scenario_game [0, 3] = Some (Inr (scenario_after, 4)) \<and>
   state scenario_after \<noteq> Victory \<and> squares_left scenario_after \<noteq> 0"
  by code_simp

text \<open>The victory with no square left is the outcome of the doctest of \<^verbatim>\<open>dig_2d\<close>, whose
  game has \<open>(0,1)\<close> revealed already and 4 squares left (evaluated here for one order
  of visiting the neighbours).\<close>

lemma dig_doctest_scenario:
  "dig_2d sorted_order 3
     (scenario_game\<lparr>hidden := Rows [Rows [Flag True, Flag False, Flag True, Flag True],
                                     Rows [Flag True, Flag True, Flag True, Flag True]],
                    squares_left := 4\<rparr>) 0 3 =
   Some (Inr (scenario_game\<lparr>
             hidden := Rows [Rows [Flag True, Flag False, Flag False, Flag False],
                             Rows [Flag True, Flag True, Flag False, Flag False]],
             state := Victory, squares_left := 0\<rparr>, 4))"
  by code_simp

end
